theory Spec2Isabelle
  imports Main
begin

section \<open>Bindings and the binding store\<close>

text \<open>
  A binding of a function: its \<open>type\<close>, its optional \<open>direction\<close> (\<open>None\<close> is
  JavaScript's \<open>undefined\<close>) and the remaining, kind-specific properties. Binding
  objects are mutable and shared: the enrichment (lines 269-299 of
  \<open>mapOrchestratorsAndActivitiesAsync\<close>) pushes the very objects extracted from code
  onto the array read from function.json and then assigns \<open>direction\<close> fields in place.
  They therefore live in a store, and an array of bindings is a list of addresses.
\<close>

type_synonym addr = nat

record binding =
  type :: string
  direction :: "string option"
  props :: "(string \<times> string) list"

type_synonym heap = "addr \<Rightarrow> binding"

text \<open>The test \<open>!binding.direction\<close>: the field is undefined or the empty string.\<close>

definition noDirection :: "binding \<Rightarrow> bool" where
  "noDirection b = (direction b = None \<or> direction b = Some [])"

text \<open>
  The first loop of the enrichment (lines 276-284). \<open>existingBindingTypes\<close> is computed
  once, before the loop, from the array as function.json gave it (line 274); the pushes do
  not extend it.
\<close>

fun pushExtracted :: "heap \<Rightarrow> string list \<Rightarrow> addr list \<Rightarrow> addr list \<Rightarrow> addr list" where
  "pushExtracted h existingBindingTypes bindingsFromFunctionJson [] = bindingsFromFunctionJson"
| "pushExtracted h existingBindingTypes bindingsFromFunctionJson (b # rest) =
     pushExtracted h existingBindingTypes
       (if type (h b) \<notin> set existingBindingTypes
        then bindingsFromFunctionJson @ [b] else bindingsFromFunctionJson) rest"

text \<open>The body of the second loop (lines 289-297), for one binding object of the merged array.\<close>

definition setDirection :: "heap \<Rightarrow> addr list \<Rightarrow> addr \<Rightarrow> heap" where
  "setDirection h bindingsFromCode b =
     (if noDirection (h b) then
        (let bindingsOfThisTypeFromCode = filter (\<lambda>c. type (h c) = type (h b)) bindingsFromCode
         in if length bindingsOfThisTypeFromCode = 1
            then h(b := (h b)\<lparr>direction := direction (h (bindingsOfThisTypeFromCode ! 0))\<rparr>)
            else h)
      else h)"

fun setDefaultDirections :: "heap \<Rightarrow> addr list \<Rightarrow> addr list \<Rightarrow> heap" where
  "setDefaultDirections h bindingsFromCode [] = h"
| "setDefaultDirections h bindingsFromCode (b # rest) =
     setDefaultDirections (setDirection h bindingsFromCode b) bindingsFromCode rest"

text \<open>
  The enrichment of one function: the store and the function's binding array before,
  the store and the array after.
\<close>

definition enrichBindings :: "heap \<Rightarrow> addr list \<Rightarrow> addr list \<Rightarrow> heap \<times> addr list" where
  "enrichBindings h bindingsFromFunctionJson bindingsFromCode =
     (let existingBindingTypes = map (\<lambda>b. type (h b)) bindingsFromFunctionJson;
          merged = pushExtracted h existingBindingTypes bindingsFromFunctionJson bindingsFromCode
      in (setDefaultDirections h bindingsFromCode merged, merged))"

text \<open>The function's bindings after the enrichment, read back from the store.\<close>

definition enrichedBindings :: "heap \<Rightarrow> addr list \<Rightarrow> addr list \<Rightarrow> binding list" where
  "enrichedBindings h bindingsFromFunctionJson bindingsFromCode =
     (case enrichBindings h bindingsFromFunctionJson bindingsFromCode of
        (h', merged) \<Rightarrow> map h' merged)"

text \<open>
  The enrichment on values, as the mapping of a whole project uses it: the bindings of
  function.json and the bindings extracted from code are allocated as distinct fresh
  objects, the enrichment runs on the store, and the function's array is read back.
\<close>

definition enrichFunction :: "binding list \<Rightarrow> binding list \<Rightarrow> binding list" where
  "enrichFunction bindingsFromFunctionJson bindingsFromCode =
     (let n = length bindingsFromFunctionJson;
          h = (\<lambda>a. (bindingsFromFunctionJson @ bindingsFromCode) ! a)
      in enrichedBindings h [0..<n] [n..<n + length bindingsFromCode])"

section \<open>The functions map and the external collaborators\<close>

text \<open>
  A \<open>FunctionsMap\<close> is a JavaScript object keyed by function name: an association list
  in the order of \<open>Object.keys\<close>. The entry of a function is created on line 102 with
  \<open>bindings\<close>, \<open>isCalledBy\<close> and \<open>isSignalledBy\<close> only; \<open>isCalledByItself\<close>,
  \<open>filePath\<close>, \<open>pos\<close> and \<open>lineNr\<close> are optional fields, absent (\<open>None\<close>) until
  assigned. \<open>bindings\<close> is whatever function.json holds under that key: \<open>None\<close> when
  it is not an array of objects, in which case \<open>.some\<close> on line 191 throws.
  An entry of \<open>isSignalledBy\<close> is the pair of \<open>name\<close> and \<open>signalName\<close>.
\<close>

record functionInfo =
  bindings :: "binding list option"
  isCalledBy :: "string list"
  isSignalledBy :: "(string \<times> string) list"
  isCalledByItself :: "bool option"
  filePath :: "string option"
  pos :: "nat option"
  lineNr :: "nat option"

type_synonym functionsMap = "(string \<times> functionInfo) list"

text \<open>
  The objects \<open>getFunctionsAndTheirCodesAsync\<close> returns: \<open>name\<close>, \<open>code\<close>, and
  \<open>filePath\<close>, \<open>pos\<close>, \<open>lineNr\<close> under the names \<open>codeFilePath\<close>, \<open>codePos\<close>,
  \<open>codeLineNr\<close>. The match \<open>findFileRecursivelyAsync\<close> returns: \<open>filePath\<close>,
  \<open>code\<close>, \<open>pos\<close>, \<open>length\<close> under the names \<open>matchFilePath\<close>, \<open>matchCode\<close>,
  \<open>matchPos\<close>, \<open>matchLength\<close>; the last two are undefined when the search was given
  no content pattern.
\<close>

record functionCode =
  name :: string
  code :: string
  codeFilePath :: string
  codePos :: nat
  codeLineNr :: nat

record fileMatch =
  matchFilePath :: string
  matchCode :: string
  matchPos :: "nat option"
  matchLength :: "nat option"

text \<open>
  A regular expression without the global flag is the function \<open>exec\<close> computes on a
  text: the index of the first match, or \<open>None\<close> for \<open>null\<close>.
  \<open>TraversalRegexes\<close> is declared in traverseFunctionProjectUtils, which is not among
  the sources, so its patterns are parameters. \<open>waitForExternalEventRegex\<close> is matched
  in a loop that relies on \<open>lastIndex\<close>: it is the function from the text and the
  current \<open>lastIndex\<close> to capture group 4 and the new \<open>lastIndex\<close>, or \<open>None\<close> when
  \<open>exec\<close> returns \<open>null\<close> (and resets \<open>lastIndex\<close> to 0).
\<close>

type_synonym regExp = "string \<Rightarrow> nat option"

record traversalRegexes =
  getStartNewOrchestrationRegex :: "string \<Rightarrow> regExp"
  getCallSubOrchestratorRegex :: "string \<Rightarrow> regExp"
  getCallActivityRegex :: "string \<Rightarrow> regExp"
  continueAsNewRegex :: regExp
  getRaiseEventRegex :: "string \<Rightarrow> regExp"
  getSignalEntityRegex :: "string \<Rightarrow> regExp"
  waitForExternalEventRegex :: "string \<Rightarrow> nat \<Rightarrow> (string \<times> nat) option"
  getDotNetFunctionNameRegex :: "string \<Rightarrow> regExp"

text \<open>
  A proxy: the fields of its descriptor and the four fields \<open>readProxiesJson\<close> computes
  (\<open>filePath\<close>, \<open>warningNotAddedToCsProjFile\<close>, \<open>pos\<close>, \<open>lineNr\<close>).
  \<open>JSON.parse(...).proxies\<close> throws, is falsy, or is the proxies object.
\<close>

record proxyInfo =
  proxyFields :: "(string \<times> string) list"
  proxyFilePath :: "string option"
  warningNotAddedToCsProjFile :: "bool option"
  proxyPos :: "nat option"
  proxyLineNr :: "nat option"

type_synonym proxiesMap = "(string \<times> proxyInfo) list"

datatype parsedProxies = ParseThrows | NoProxies | Proxies proxiesMap

text \<open>Exceptions that reach the caller, and the messages passed to \<open>log\<close>.\<close>

datatype error =
  HostJsonNotFound | CloneFailed | PublishFailed | FileSystemError | TypeError
  | DescriptorExtractionFailed

datatype logEntry =
  Cloning string | ClonedTo string | FoundHostJson string | Publishing string string
  | FailedToParse string

datatype projectKind = DotNet | Java | Other

text \<open>
  The file system, the JSON parser, the regular-expression engine and the helpers of the
  modules that are not among the sources. The functions keep the names the source calls
  them by; \<open>None\<close> stands for a thrown exception or a rejected promise, except for
  \<open>findFileRecursivelyAsync\<close>, where it is the undefined result of a search that found
  nothing. \<open>cloneFromGitHub\<close> returns \<open>gitTempFolder\<close> and \<open>projectFolder\<close>;
  \<open>dotnetPublish out cwd\<close> tells whether \<open>dotnet publish -o out\<close> run in \<open>cwd\<close>
  succeeded; \<open>lstatIsDirectory\<close> is \<open>lstat(...).isDirectory()\<close>;
  \<open>parseFunctionJson\<close> is \<open>JSON.parse(...).bindings\<close>, \<open>None\<close> when that throws and
  \<open>Some None\<close> when the value is no array of objects; \<open>parseProxiesJson\<close> is
  \<open>JSON.parse(...).proxies\<close>; \<open>newRegExp\<close> is \<open>new RegExp\<close> on the source of a
  pattern; \<open>getCodeInBrackets\<close> receives the text and the start offset
  \<open>pos + length\<close> (\<open>None\<close> when either is undefined) and returns the \<open>code\<close> of its
  result.
\<close>

record env =
  cloneFromGitHub :: "string \<Rightarrow> (string \<times> string) option"
  findFileRecursivelyAsync :: "string \<Rightarrow> string \<Rightarrow> bool \<Rightarrow> regExp option \<Rightarrow> fileMatch option"
  isDotNetIsolatedProjectAsync :: "string \<Rightarrow> bool"
  isDotNetProjectAsync :: "string \<Rightarrow> bool"
  isJavaProjectAsync :: "string \<Rightarrow> bool"
  mkdtemp :: "string \<Rightarrow> string option"
  tmpdir :: string
  dotnetPublish :: "string \<Rightarrow> string \<Rightarrow> bool"
  traverseJavaProject :: "string \<Rightarrow> functionsMap option"
  traverseDotNetIsolatedProject :: "string \<Rightarrow> functionsMap option"
  readdir :: "string \<Rightarrow> string list option"
  lstatIsDirectory :: "string \<Rightarrow> bool option"
  existsSync :: "string \<Rightarrow> bool"
  readFile :: "string \<Rightarrow> string option"
  pathJoin :: "string \<Rightarrow> string \<Rightarrow> string"
  pathDirname :: "string \<Rightarrow> string"
  parseFunctionJson :: "string \<Rightarrow> binding list option option"
  parseProxiesJson :: "string \<Rightarrow> parsedProxies"
  newRegExp :: "string \<Rightarrow> regExp option"
  getCodeInBrackets :: "string \<Rightarrow> nat option \<Rightarrow> string"
  posToLineNr :: "string \<Rightarrow> nat \<Rightarrow> nat"
  tryExtractBindings :: "string \<Rightarrow> binding list"

section \<open>GraphMapper: mapOrchestratorsAndActivitiesAsync\<close>

text \<open>
  \<open>functions[name].bindings\<close>. The mapping throws before any of the four name lists is
  used when some function has no binding array, so the lists below are only ever read
  with all arrays present.
\<close>

definition bindingsOf :: "functionsMap \<Rightarrow> string \<Rightarrow> binding list" where
  "bindingsOf functions n =
     (case map_of functions n of
        Some f \<Rightarrow> (case bindings f of Some bs \<Rightarrow> bs | None \<Rightarrow> [])
      | None \<Rightarrow> [])"

text \<open>The four name lists (lines 189-200): four filters of \<open>Object.keys(functions)\<close>.\<close>

definition orchestratorNames :: "functionsMap \<Rightarrow> string list" where
  "orchestratorNames functions =
     filter (\<lambda>n. list_ex (\<lambda>b. type b = ''orchestrationTrigger'') (bindingsOf functions n))
       (map fst functions)"

definition activityNames :: "functionsMap \<Rightarrow> string list" where
  "activityNames functions =
     filter (\<lambda>n. list_ex (\<lambda>b. type b = ''activityTrigger'') (bindingsOf functions n))
       (map fst functions)"

definition entityNames :: "functionsMap \<Rightarrow> string list" where
  "entityNames functions =
     filter (\<lambda>n. list_ex (\<lambda>b. type b = ''entityTrigger'') (bindingsOf functions n))
       (map fst functions)"

definition otherFunctionNames :: "functionsMap \<Rightarrow> string list" where
  "otherFunctionNames functions =
     filter (\<lambda>n. \<not> list_ex (\<lambda>b. type b \<in> set [''orchestrationTrigger'', ''activityTrigger'',
                   ''entityTrigger'']) (bindingsOf functions n))
       (map fst functions)"

text \<open>The file-name patterns of \<open>getFunctionsAndTheirCodesAsync\<close> (lines 336-342).\<close>

definition dotNetFilePattern :: string where
  "dotNetFilePattern = ''.+'' @ [CHR 0x5C] @ ''.(f|c)s$''"

definition javaFilePattern :: string where
  "javaFilePattern = ''.+'' @ [CHR 0x5C] @ ''.java$''"

definition scriptFilePattern :: string where
  "scriptFilePattern = ''(index'' @ [CHR 0x5C] @ ''.ts|index'' @ [CHR 0x5C] @ ''.js|__init__''
     @ [CHR 0x5C] @ ''.py)$''"

definition findFunctionFile ::
  "env \<Rightarrow> traversalRegexes \<Rightarrow> projectKind \<Rightarrow> string \<Rightarrow> string \<Rightarrow> string \<Rightarrow> fileMatch option" where
  "findFunctionFile e rx kind projectFolder hostJsonFolder n =
     (case kind of
        DotNet \<Rightarrow> findFileRecursivelyAsync e projectFolder dotNetFilePattern True
                    (Some (getDotNetFunctionNameRegex rx n))
      | Java \<Rightarrow> findFileRecursivelyAsync e projectFolder javaFilePattern True
                  (Some (getDotNetFunctionNameRegex rx n))
      | Other \<Rightarrow> findFileRecursivelyAsync e (pathJoin e hostJsonFolder n)
                   scriptFilePattern True None)"

text \<open>
  Lines 327-357. The lookups run concurrently in the source and are gathered by
  \<open>Promise.all\<close> in the order of the names; functions whose file is not found are
  dropped.
\<close>

definition getFunctionsAndTheirCodesAsync ::
  "env \<Rightarrow> traversalRegexes \<Rightarrow> string list \<Rightarrow> projectKind \<Rightarrow> string \<Rightarrow> string \<Rightarrow> functionCode list" where
  "getFunctionsAndTheirCodesAsync e rx functionNames kind projectFolder hostJsonFolder =
     List.map_filter (\<lambda>n.
        (case findFunctionFile e rx kind projectFolder hostJsonFolder n of
           None \<Rightarrow> None
         | Some m \<Rightarrow>
             (let c = (if kind = Other then matchCode m
                       else getCodeInBrackets e (matchCode m)
                              (case (matchPos m, matchLength m) of
                                 (Some p, Some l) \<Rightarrow> Some (p + l)
                               | _ \<Rightarrow> None));
                  p = (case matchPos m of None \<Rightarrow> 0 | Some p \<Rightarrow> p)
              in Some \<lparr>name = n, code = c, codeFilePath = matchFilePath m, codePos = p,
                       codeLineNr = posToLineNr e (matchCode m) p\<rparr>))) functionNames"

text \<open>
  \<open>functions[n].field = ...\<close> and \<open>functions[n].list.push(...)\<close>: the entry of \<open>n\<close> is
  updated in place. Every name the mapping updates is a key of the map.
\<close>

definition updateFunction ::
  "string \<Rightarrow> (functionInfo \<Rightarrow> functionInfo) \<Rightarrow> functionsMap \<Rightarrow> functionsMap" where
  "updateFunction n f functions = map (\<lambda>(k, v). if k = n then (k, f v) else (k, v)) functions"

definition pushIsCalledBy :: "string \<Rightarrow> string \<Rightarrow> functionsMap \<Rightarrow> functionsMap" where
  "pushIsCalledBy target caller =
     updateFunction target (\<lambda>f. f\<lparr>isCalledBy := isCalledBy f @ [caller]\<rparr>)"

definition pushIsSignalledBy :: "string \<Rightarrow> string \<times> string \<Rightarrow> functionsMap \<Rightarrow> functionsMap" where
  "pushIsSignalledBy target entry =
     updateFunction target (\<lambda>f. f\<lparr>isSignalledBy := isSignalledBy f @ [entry]\<rparr>)"

text \<open>
  Lines 207-213, and with the signal-entity pattern lines 256-263: every function of
  \<open>otherFunctions\<close> whose code matches is pushed onto the target's \<open>isCalledBy\<close>.
\<close>

fun mapCallingFunctions ::
  "regExp \<Rightarrow> string \<Rightarrow> functionsMap \<Rightarrow> functionCode list \<Rightarrow> functionsMap" where
  "mapCallingFunctions regex target functions [] = functions"
| "mapCallingFunctions regex target functions (func # rest) =
     mapCallingFunctions regex target
       (if regex (code func) \<noteq> None then pushIsCalledBy target (name func) functions
        else functions) rest"

text \<open>Lines 216-228.\<close>

fun mapSubOrchestrators ::
  "traversalRegexes \<Rightarrow> functionCode \<Rightarrow> functionsMap \<Rightarrow> functionCode list \<Rightarrow> functionsMap" where
  "mapSubOrchestrators rx orch functions [] = functions"
| "mapSubOrchestrators rx orch functions (subOrch # rest) =
     mapSubOrchestrators rx orch
       (if name orch = name subOrch then functions
        else if getCallSubOrchestratorRegex rx (name subOrch) (code orch) \<noteq> None
             then pushIsCalledBy (name subOrch) (name orch) functions
             else functions) rest"

text \<open>
  Lines 360-375. The guard on line 369 never fires: \<open>isCalledBy\<close> is always an array.
\<close>

fun mapActivitiesToOrchestrator ::
  "traversalRegexes \<Rightarrow> functionsMap \<Rightarrow> functionCode \<Rightarrow> string list \<Rightarrow> functionsMap" where
  "mapActivitiesToOrchestrator rx functions orch [] = functions"
| "mapActivitiesToOrchestrator rx functions orch (activityName # rest) =
     mapActivitiesToOrchestrator rx
       (if getCallActivityRegex rx activityName (code orch) \<noteq> None
        then pushIsCalledBy activityName (name orch) functions
        else functions) orch rest"

text \<open>
  \<open>getEventNames\<close> (lines 313-324): the loop runs until \<open>exec\<close> returns \<open>null\<close>, and
  does not return if it never does.
\<close>

partial_function (option) getEventNames_loop ::
  "(string \<Rightarrow> nat \<Rightarrow> (string \<times> nat) option) \<Rightarrow> string \<Rightarrow> nat \<Rightarrow> string list \<Rightarrow> string list option" where
  "getEventNames_loop regex orchestratorCode lastIndex result =
     (case regex orchestratorCode lastIndex of
        None \<Rightarrow> Some result
      | Some (match4, lastIndex') \<Rightarrow>
          getEventNames_loop regex orchestratorCode lastIndex' (result @ [match4]))"

definition getEventNames :: "traversalRegexes \<Rightarrow> string \<Rightarrow> string list option" where
  "getEventNames rx orchestratorCode =
     getEventNames_loop (waitForExternalEventRegex rx) orchestratorCode 0 []"

text \<open>Lines 240-250: the inner and the outer loop over event names and other functions.\<close>

fun mapSendingFunctions ::
  "regExp \<Rightarrow> string \<Rightarrow> string \<Rightarrow> functionsMap \<Rightarrow> functionCode list \<Rightarrow> functionsMap" where
  "mapSendingFunctions regex orchName eventName functions [] = functions"
| "mapSendingFunctions regex orchName eventName functions (func # rest) =
     mapSendingFunctions regex orchName eventName
       (if regex (code func) \<noteq> None
        then pushIsSignalledBy orchName (name func, eventName) functions
        else functions) rest"

fun mapEventProducers ::
  "traversalRegexes \<Rightarrow> string \<Rightarrow> functionCode list \<Rightarrow> functionsMap \<Rightarrow> string list \<Rightarrow> functionsMap" where
  "mapEventProducers rx orchName otherFuncs functions [] = functions"
| "mapEventProducers rx orchName otherFuncs functions (eventName # rest) =
     mapEventProducers rx orchName otherFuncs
       (mapSendingFunctions (getRaiseEventRegex rx eventName) orchName eventName
          functions otherFuncs) rest"

text \<open>The body of the loop over the orchestrators (lines 203-251), and the loop.\<close>

definition mapOrchestrator ::
  "traversalRegexes \<Rightarrow> functionCode list \<Rightarrow> functionCode list \<Rightarrow> string list \<Rightarrow>
   functionsMap \<Rightarrow> functionCode \<Rightarrow> functionsMap option" where
  "mapOrchestrator rx otherFuncs orchs activityNms functions orch =
     (let fs1 = mapCallingFunctions (getStartNewOrchestrationRegex rx (name orch)) (name orch)
                  functions otherFuncs;
          fs2 = mapSubOrchestrators rx orch fs1 orchs;
          fs3 = mapActivitiesToOrchestrator rx fs2 orch activityNms;
          fs4 = (if continueAsNewRegex rx (code orch) \<noteq> None
                 then updateFunction (name orch) (\<lambda>f. f\<lparr>isCalledByItself := Some True\<rparr>) fs3
                 else fs3)
      in case getEventNames rx (code orch) of
           None \<Rightarrow> None
         | Some eventNames \<Rightarrow> Some (mapEventProducers rx (name orch) otherFuncs fs4 eventNames))"

fun mapOrchestrators ::
  "traversalRegexes \<Rightarrow> functionCode list \<Rightarrow> functionCode list \<Rightarrow> string list \<Rightarrow>
   functionsMap \<Rightarrow> functionCode list \<Rightarrow> functionsMap option" where
  "mapOrchestrators rx otherFuncs orchs activityNms functions [] = Some functions"
| "mapOrchestrators rx otherFuncs orchs activityNms functions (orch # rest) =
     (case mapOrchestrator rx otherFuncs orchs activityNms functions orch of
        None \<Rightarrow> None
      | Some functions1 \<Rightarrow> mapOrchestrators rx otherFuncs orchs activityNms functions1 rest)"

text \<open>Lines 253-264.\<close>

fun mapEntities ::
  "traversalRegexes \<Rightarrow> functionCode list \<Rightarrow> functionsMap \<Rightarrow> functionCode list \<Rightarrow> functionsMap" where
  "mapEntities rx otherFunctions functions [] = functions"
| "mapEntities rx otherFunctions functions (entity # rest) =
     mapEntities rx otherFunctions
       (mapCallingFunctions (getSignalEntityRegex rx (name entity)) (name entity)
          functions otherFunctions) rest"

text \<open>Lines 266-300: the enrichment of every activity and every other function.\<close>

fun enrichFromCode :: "env \<Rightarrow> functionsMap \<Rightarrow> functionCode list \<Rightarrow> functionsMap" where
  "enrichFromCode e functions [] = functions"
| "enrichFromCode e functions (func # rest) =
     enrichFromCode e
       (updateFunction (name func)
          (\<lambda>f. f\<lparr>bindings :=
                  map_option (\<lambda>bindingsFromFunctionJson.
                      enrichFunction bindingsFromFunctionJson (tryExtractBindings e (code func)))
                    (bindings f)\<rparr>) functions) rest"

text \<open>Lines 303-307.\<close>

fun addFilePaths :: "functionsMap \<Rightarrow> functionCode list \<Rightarrow> functionsMap" where
  "addFilePaths functions [] = functions"
| "addFilePaths functions (func # rest) =
     addFilePaths
       (updateFunction (name func)
          (\<lambda>f. f\<lparr>filePath := Some (codeFilePath func), pos := Some (codePos func),
                  lineNr := Some (codeLineNr func)\<rparr>) functions) rest"

text \<open>Lines 181-187, and the four lists of located functions (lines 192-201).\<close>

definition projectKindOf :: "env \<Rightarrow> string \<Rightarrow> projectKind" where
  "projectKindOf e projectFolder =
     (if isDotNetProjectAsync e projectFolder then DotNet
      else if isJavaProjectAsync e projectFolder then Java else Other)"

definition orchestrators ::
  "env \<Rightarrow> traversalRegexes \<Rightarrow> functionsMap \<Rightarrow> string \<Rightarrow> string \<Rightarrow> functionCode list" where
  "orchestrators e rx functions projectFolder hostJsonFolder =
     getFunctionsAndTheirCodesAsync e rx (orchestratorNames functions)
       (projectKindOf e projectFolder) projectFolder hostJsonFolder"

definition activities ::
  "env \<Rightarrow> traversalRegexes \<Rightarrow> functionsMap \<Rightarrow> string \<Rightarrow> string \<Rightarrow> functionCode list" where
  "activities e rx functions projectFolder hostJsonFolder =
     getFunctionsAndTheirCodesAsync e rx (activityNames functions)
       (projectKindOf e projectFolder) projectFolder hostJsonFolder"

definition entities ::
  "env \<Rightarrow> traversalRegexes \<Rightarrow> functionsMap \<Rightarrow> string \<Rightarrow> string \<Rightarrow> functionCode list" where
  "entities e rx functions projectFolder hostJsonFolder =
     getFunctionsAndTheirCodesAsync e rx (entityNames functions)
       (projectKindOf e projectFolder) projectFolder hostJsonFolder"

definition otherFunctions ::
  "env \<Rightarrow> traversalRegexes \<Rightarrow> functionsMap \<Rightarrow> string \<Rightarrow> string \<Rightarrow> functionCode list" where
  "otherFunctions e rx functions projectFolder hostJsonFolder =
     getFunctionsAndTheirCodesAsync e rx (otherFunctionNames functions)
       (projectKindOf e projectFolder) projectFolder hostJsonFolder"

text \<open>
  The whole function. \<open>None\<close>: it does not return; \<open>Some (Inl err)\<close>: it throws;
  \<open>Some (Inr fs)\<close>: it returns the map \<open>fs\<close>.
\<close>

definition mapOrchestratorsAndActivitiesAsync ::
  "env \<Rightarrow> traversalRegexes \<Rightarrow> functionsMap \<Rightarrow> string \<Rightarrow> string \<Rightarrow> (error + functionsMap) option" where
  "mapOrchestratorsAndActivitiesAsync e rx functions projectFolder hostJsonFolder =
     (if list_ex (\<lambda>(n, f). bindings f = None) functions then Some (Inl TypeError)
      else
        (let orchs = orchestrators e rx functions projectFolder hostJsonFolder;
             acts = activities e rx functions projectFolder hostJsonFolder;
             ents = entities e rx functions projectFolder hostJsonFolder;
             others = otherFunctions e rx functions projectFolder hostJsonFolder
         in case mapOrchestrators rx others orchs (activityNames functions) functions orchs of
              None \<Rightarrow> None
            | Some fs1 \<Rightarrow>
                (let fs2 = mapEntities rx others fs1 ents;
                     fs3 = (if projectKindOf e projectFolder = DotNet
                            then enrichFromCode e fs2 (acts @ others) else fs2)
                 in Some (Inr (addFilePaths fs3 (others @ orchs @ acts @ ents))))))"

section \<open>ProxyReader: readProxiesJson\<close>

text \<open>
  The sources of the two regular expressions built on lines 143 and 160. A double quote
  is \<open>CHR 0x22\<close>, a backslash \<open>CHR 0x5C\<close>.
\<close>

definition proxiesJsonEntryPattern :: string where
  "proxiesJsonEntryPattern =
     [CHR 0x5C] @ ''s*='' @ [CHR 0x5C] @ ''s*'' @ [CHR 0x22] @ ''proxies.json'' @ [CHR 0x22]
     @ [CHR 0x5C] @ ''s*>''"

definition proxyNamePattern :: "string \<Rightarrow> string" where
  "proxyNamePattern proxyName = [CHR 0x22] @ proxyName @ [CHR 0x22] @ [CHR 0x5C] @ ''s*:''"

definition csProjFilePattern :: string where
  "csProjFilePattern = ''.+'' @ [CHR 0x5C] @ ''.csproj$''"

text \<open>
  The loop over the proxies (lines 152-167). \<open>None\<close>: \<open>new RegExp\<close> threw, which the
  \<open>catch\<close> on line 171 turns into an empty map.
\<close>

fun addFilePathAndLineNr ::
  "env \<Rightarrow> string \<Rightarrow> bool \<Rightarrow> string \<Rightarrow> proxiesMap \<Rightarrow> proxiesMap option" where
  "addFilePathAndLineNr e proxiesJsonPath notAddedToCsProjFile proxiesJsonString [] = Some []"
| "addFilePathAndLineNr e proxiesJsonPath notAddedToCsProjFile proxiesJsonString
     ((proxyName, proxy) # rest) =
     (let proxy1 = proxy\<lparr>proxyFilePath := Some proxiesJsonPath\<rparr>;
          proxy2 = (if notAddedToCsProjFile
                    then proxy1\<lparr>warningNotAddedToCsProjFile := Some True\<rparr> else proxy1)
      in case newRegExp e (proxyNamePattern proxyName) of
           None \<Rightarrow> None
         | Some proxyNameRegex \<Rightarrow>
             (let proxy3 = (case proxyNameRegex proxiesJsonString of
                              Some index \<Rightarrow>
                                proxy2\<lparr>proxyPos := Some index,
                                       proxyLineNr := Some (posToLineNr e proxiesJsonString index)\<rparr>
                            | None \<Rightarrow> proxy2)
              in map_option ((#) (proxyName, proxy3))
                   (addFilePathAndLineNr e proxiesJsonPath notAddedToCsProjFile
                      proxiesJsonString rest)))"

text \<open>Lines 137-149.\<close>

definition notAddedToCsProjFile :: "env \<Rightarrow> string \<Rightarrow> bool option" where
  "notAddedToCsProjFile e projectFolder =
     (if isDotNetProjectAsync e projectFolder then
        (let csProjFile = findFileRecursivelyAsync e projectFolder csProjFilePattern True None
         in case newRegExp e proxiesJsonEntryPattern of
              None \<Rightarrow> None
            | Some proxiesJsonEntryRegex \<Rightarrow>
                Some (case csProjFile of
                        None \<Rightarrow> False
                      | Some m \<Rightarrow> matchCode m \<noteq> [] \<and> proxiesJsonEntryRegex (matchCode m) = None))
      else Some False)"

text \<open>
  Lines 122-176: the result and the messages logged. The file is read outside the
  \<open>try\<close>, so a failing read reaches the caller; everything thrown inside it is logged
  and answered by an empty map.
\<close>

definition readProxiesJson :: "env \<Rightarrow> string \<Rightarrow> (error + proxiesMap) \<times> logEntry list" where
  "readProxiesJson e projectFolder =
     (let proxiesJsonPath = pathJoin e projectFolder ''proxies.json''
      in if \<not> existsSync e proxiesJsonPath then (Inr [], [])
         else case readFile e proxiesJsonPath of
                None \<Rightarrow> (Inl FileSystemError, [])
              | Some proxiesJsonString \<Rightarrow>
                  (case parseProxiesJson e proxiesJsonString of
                     ParseThrows \<Rightarrow> (Inr [], [FailedToParse proxiesJsonPath])
                   | NoProxies \<Rightarrow> (Inr [], [])
                   | Proxies proxies \<Rightarrow>
                       (case notAddedToCsProjFile e projectFolder of
                          None \<Rightarrow> (Inr [], [FailedToParse proxiesJsonPath])
                        | Some notAdded \<Rightarrow>
                            (case addFilePathAndLineNr e proxiesJsonPath notAdded
                                    proxiesJsonString proxies of
                               None \<Rightarrow> (Inr [], [FailedToParse proxiesJsonPath])
                             | Some annotated \<Rightarrow> (Inr annotated, [])))))"

section \<open>ProjectLocator and DescriptorReader: traverseFunctionProject\<close>

text \<open>The value returned on line 118; the field \<open>functions\<close> is \<open>functions'\<close> here.\<close>

record traverseFunctionResult =
  functions' :: functionsMap
  proxies :: proxiesMap
  tempFolders :: "string list"
  projectFolder :: string

text \<open>\<open>projectFolder.toLowerCase().startsWith('http')\<close>.\<close>

definition startsWithHttp :: "string \<Rightarrow> bool" where
  "startsWithHttp s =
     (case s of
        c1 # c2 # c3 # c4 # _ \<Rightarrow>
          (c1 = CHR ''h'' \<or> c1 = CHR ''H'') \<and> (c2 = CHR ''t'' \<or> c2 = CHR ''T'')
          \<and> (c3 = CHR ''t'' \<or> c3 = CHR ''T'') \<and> (c4 = CHR ''p'' \<or> c4 = CHR ''P'')
      | _ \<Rightarrow> False)"

text \<open>Lines 28-38: the temporary folders, the project folder and the messages logged.\<close>

definition cloneIfGitRepo ::
  "env \<Rightarrow> string \<Rightarrow> (error + string list \<times> string) \<times> logEntry list" where
  "cloneIfGitRepo e projFolder =
     (if startsWithHttp projFolder then
        (case cloneFromGitHub e projFolder of
           None \<Rightarrow> (Inl CloneFailed, [Cloning projFolder])
         | Some (gitTempFolder, gitProjectFolder) \<Rightarrow>
             (Inr ([gitTempFolder], gitProjectFolder), [Cloning projFolder, ClonedTo gitTempFolder]))
      else (Inr ([], projFolder), []))"

text \<open>\<open>functions[functionName] = ...\<close>: a new key is appended, an old one keeps its place.\<close>

definition setFunction :: "string \<Rightarrow> functionInfo \<Rightarrow> functionsMap \<Rightarrow> functionsMap" where
  "setFunction n v fs =
     (if n \<in> set (map fst fs) then map (\<lambda>(k, w). if k = n then (k, v) else (k, w)) fs
      else fs @ [(n, v)])"

text \<open>
  Lines 88-109. The directory entries are read concurrently in the source; the list is
  taken in the order in which the reads complete. A failing \<open>lstat\<close> rejects the whole
  traversal; a descriptor that cannot be read or parsed is logged and skipped.
\<close>

fun readFunctionJsons ::
  "env \<Rightarrow> string \<Rightarrow> functionsMap \<Rightarrow> string list \<Rightarrow> (error + functionsMap) \<times> logEntry list" where
  "readFunctionJsons e hostJsonFolder fs [] = (Inr fs, [])"
| "readFunctionJsons e hostJsonFolder fs (functionName # rest) =
     (let fullPath = pathJoin e hostJsonFolder functionName;
          functionJsonFilePath = pathJoin e fullPath ''function.json''
      in case lstatIsDirectory e fullPath of
           None \<Rightarrow> (Inl FileSystemError, [])
         | Some isDirectory \<Rightarrow>
             (if isDirectory \<and> existsSync e functionJsonFilePath then
                (case Option.bind (readFile e functionJsonFilePath) (parseFunctionJson e) of
                   None \<Rightarrow>
                     (case readFunctionJsons e hostJsonFolder fs rest of
                        (r, lg) \<Rightarrow> (r, FailedToParse functionJsonFilePath # lg))
                 | Some functionJsonBindings \<Rightarrow>
                     readFunctionJsons e hostJsonFolder
                       (setFunction functionName
                          \<lparr>bindings = functionJsonBindings, isCalledBy = [], isSignalledBy = [],
                           isCalledByItself = None, filePath = None, pos = None, lineNr = None\<rparr>
                          fs) rest)
              else readFunctionJsons e hostJsonFolder fs rest))"

text \<open>Lines 55-66.\<close>

definition publishIfDotNet ::
  "env \<Rightarrow> string \<Rightarrow> (error + string list \<times> string) \<times> logEntry list" where
  "publishIfDotNet e hostJsonFolder =
     (if isDotNetProjectAsync e hostJsonFolder then
        (case mkdtemp e (pathJoin e (tmpdir e) ''dotnet-publish-'') of
           None \<Rightarrow> (Inl FileSystemError, [])
         | Some publishTempFolder \<Rightarrow>
             (if dotnetPublish e publishTempFolder hostJsonFolder
              then (Inr ([publishTempFolder], publishTempFolder),
                    [Publishing hostJsonFolder publishTempFolder])
              else (Inl PublishFailed, [Publishing hostJsonFolder publishTempFolder])))
      else (Inr ([], hostJsonFolder), []))"

text \<open>
  Lines 25-113: everything \<open>traverseFunctionProject\<close> does before it reads the proxies.
  The result is the functions map, the temporary folders and the resolved project folder.
\<close>

definition collectFunctions ::
  "env \<Rightarrow> traversalRegexes \<Rightarrow> string \<Rightarrow>
   ((error + functionsMap \<times> string list \<times> string) \<times> logEntry list) option" where
  "collectFunctions e rx projFolder0 =
     (case cloneIfGitRepo e projFolder0 of
        (Inl err, lg) \<Rightarrow> Some (Inl err, lg)
      | (Inr (temps0, projFolder), lg0) \<Rightarrow>
          (case findFileRecursivelyAsync e projFolder ''host.json'' False None of
             None \<Rightarrow> Some (Inl HostJsonNotFound, lg0)
           | Some hostJsonMatch \<Rightarrow>
               (let lg1 = lg0 @ [FoundHostJson (matchFilePath hostJsonMatch)];
                    hostJsonFolder0 = pathDirname e (matchFilePath hostJsonMatch);
                    isDotNetIsolatedProject = isDotNetIsolatedProjectAsync e projFolder
                in case (if isDotNetIsolatedProject then (Inr ([], hostJsonFolder0), [])
                         else publishIfDotNet e hostJsonFolder0) of
                     (Inl err, lg) \<Rightarrow> Some (Inl err, lg1 @ lg)
                   | (Inr (temps1, hostJsonFolder), lg) \<Rightarrow>
                       (let lg2 = lg1 @ lg;
                            temps = temps0 @ temps1;
                            isJavaProject = (\<not> isDotNetIsolatedProject
                                              \<and> isJavaProjectAsync e hostJsonFolder)
                        in if isJavaProject then
                             (case traverseJavaProject e projFolder of
                                None \<Rightarrow> Some (Inl DescriptorExtractionFailed, lg2)
                              | Some fs \<Rightarrow>
                                  (case mapOrchestratorsAndActivitiesAsync e rx fs projFolder
                                          hostJsonFolder of
                                     None \<Rightarrow> None
                                   | Some (Inl err) \<Rightarrow> Some (Inl err, lg2)
                                   | Some (Inr fs') \<Rightarrow> Some (Inr (fs', temps, projFolder), lg2)))
                           else if isDotNetIsolatedProject then
                             (case traverseDotNetIsolatedProject e projFolder of
                                None \<Rightarrow> Some (Inl DescriptorExtractionFailed, lg2)
                              | Some fs \<Rightarrow> Some (Inr (fs, temps, projFolder), lg2))
                           else
                             (case readdir e hostJsonFolder of
                                None \<Rightarrow> Some (Inl FileSystemError, lg2)
                              | Some entries \<Rightarrow>
                                  (case readFunctionJsons e hostJsonFolder [] entries of
                                     (Inl err, lg) \<Rightarrow> Some (Inl err, lg2 @ lg)
                                   | (Inr fs, lg) \<Rightarrow>
                                       (case mapOrchestratorsAndActivitiesAsync e rx fs projFolder
                                               hostJsonFolder of
                                          None \<Rightarrow> None
                                        | Some (Inl err) \<Rightarrow> Some (Inl err, lg2 @ lg)
                                        | Some (Inr fs') \<Rightarrow>
                                            Some (Inr (fs', temps, projFolder), lg2 @ lg))))))))"

text \<open>The whole traversal, with the messages it logged.\<close>

definition traverseFunctionProject ::
  "env \<Rightarrow> traversalRegexes \<Rightarrow> string \<Rightarrow>
   ((error + traverseFunctionResult) \<times> logEntry list) option" where
  "traverseFunctionProject e rx projFolder0 =
     (case collectFunctions e rx projFolder0 of
        None \<Rightarrow> None
      | Some (Inl err, lg) \<Rightarrow> Some (Inl err, lg)
      | Some (Inr (fs, temps, projFolder), lg) \<Rightarrow>
          (case readProxiesJson e projFolder of
             (Inl err, lg') \<Rightarrow> Some (Inl err, lg @ lg')
           | (Inr prx, lg') \<Rightarrow>
               Some (Inr \<lparr>functions' = fs, proxies = prx, tempFolders = temps,
                          projectFolder = projFolder\<rparr>, lg @ lg')))"

section \<open>Notions used in the statements\<close>

text \<open>
  What the second loop of the enrichment does to one binding, as a function of the
  binding's value and of the values of the bindings extracted from code.
\<close>

definition inferDirection :: "binding list \<Rightarrow> binding \<Rightarrow> binding" where
  "inferDirection cands b =
     (if noDirection b then
        (case filter (\<lambda>c. type c = type b) cands of
           [c] \<Rightarrow> b\<lparr>direction := direction c\<rparr>
         | _ \<Rightarrow> b)
      else b)"

text \<open>
  The captures of the successive matches of a pattern driven by \<open>lastIndex\<close>, from
  position \<open>i\<close>, at most \<open>fuel\<close> of them.
\<close>

fun matchesFrom ::
  "(string \<Rightarrow> nat \<Rightarrow> (string \<times> nat) option) \<Rightarrow> string \<Rightarrow> nat \<Rightarrow> nat \<Rightarrow> string list" where
  "matchesFrom regex body 0 i = []"
| "matchesFrom regex body (Suc fuel) i =
     (case regex body i of
        None \<Rightarrow> []
      | Some (match4, j) \<Rightarrow> match4 # matchesFrom regex body fuel j)"

text \<open>
  A pattern advances on a text when every match found from a position within the text
  ends after that position and within the text: what \<open>exec\<close> guarantees for a global
  pattern that matches no empty string.
\<close>

definition advances :: "(string \<Rightarrow> nat \<Rightarrow> (string \<times> nat) option) \<Rightarrow> string \<Rightarrow> bool" where
  "advances regex body =
     list_all (\<lambda>i. case regex body i of
                      None \<Rightarrow> True
                    | Some (match4, j) \<Rightarrow> i < j \<and> j \<le> length body)
       [0..<Suc (length body)]"

text \<open>
  The entries \<open>{name: F, signalName: E}\<close>, for every event name \<open>E\<close> in order and every
  function \<open>F\<close> whose code matches the raise-event pattern for \<open>E\<close>.
\<close>

definition signalsOf ::
  "traversalRegexes \<Rightarrow> functionCode list \<Rightarrow> string list \<Rightarrow> (string \<times> string) list" where
  "signalsOf rx otherFuncs eventNames =
     concat (map (\<lambda>eventName.
        map (\<lambda>func. (name func, eventName))
          (filter (\<lambda>func. getRaiseEventRegex rx eventName (code func) \<noteq> None) otherFuncs))
        eventNames)"

definition signalsFoundBy ::
  "traversalRegexes \<Rightarrow> functionCode list \<Rightarrow> functionCode \<Rightarrow> (string \<times> string) list" where
  "signalsFoundBy rx otherFuncs orch =
     (case getEventNames rx (code orch) of
        Some eventNames \<Rightarrow> signalsOf rx otherFuncs eventNames
      | None \<Rightarrow> [])"

text \<open>The fields of a function in a map, \<open>None\<close> when the map has no such function.\<close>

definition signalledBy :: "functionsMap \<Rightarrow> string \<Rightarrow> (string \<times> string) list option" where
  "signalledBy fs k = map_option isSignalledBy (map_of fs k)"

definition calledByItself :: "functionsMap \<Rightarrow> string \<Rightarrow> bool option option" where
  "calledByItself fs k = map_option isCalledByItself (map_of fs k)"

definition isCalledByIn :: "functionsMap \<Rightarrow> string \<Rightarrow> string \<Rightarrow> bool" where
  "isCalledByIn fs callee caller =
     (case map_of fs callee of Some f \<Rightarrow> caller \<in> set (isCalledBy f) | None \<Rightarrow> False)"

text \<open>The map a completed mapping or traversal returns.\<close>

definition mappedFunctions ::
  "env \<Rightarrow> traversalRegexes \<Rightarrow> functionsMap \<Rightarrow> string \<Rightarrow> string \<Rightarrow> functionsMap" where
  "mappedFunctions e rx fs pf hf =
     (case mapOrchestratorsAndActivitiesAsync e rx fs pf hf of
        Some (Inr fs') \<Rightarrow> fs'
      | _ \<Rightarrow> [])"

definition traversedFunctions :: "env \<Rightarrow> traversalRegexes \<Rightarrow> string \<Rightarrow> functionsMap" where
  "traversedFunctions e rx projFolder0 =
     (case traverseFunctionProject e rx projFolder0 of
        Some (Inr r, lg) \<Rightarrow> functions' r
      | _ \<Rightarrow> [])"

definition returnedProxies :: "env \<Rightarrow> string \<Rightarrow> proxiesMap" where
  "returnedProxies e pf = (case fst (readProxiesJson e pf) of Inr out \<Rightarrow> out | Inl err \<Rightarrow> [])"

text \<open>
  The trigger types a function declares among the three the classification looks for,
  and the name lists among the four that contain the function.
\<close>

definition declaredTriggers :: "functionsMap \<Rightarrow> string \<Rightarrow> string list" where
  "declaredTriggers fs n =
     filter (\<lambda>t. list_ex (\<lambda>b. type b = t) (bindingsOf fs n))
       [''orchestrationTrigger'', ''activityTrigger'', ''entityTrigger'']"

definition listsContaining :: "functionsMap \<Rightarrow> string \<Rightarrow> string list list" where
  "listsContaining fs n =
     filter (\<lambda>l. n \<in> set l)
       [orchestratorNames fs, activityNames fs, entityNames fs, otherFunctionNames fs]"

section \<open>Sample inputs\<close>

text \<open>A store with a function.json binding at 0 and two blob bindings from code at 1 and 2.\<close>

definition blobHeap :: heap where
  "blobHeap = (\<lambda>a.
     if a = 0 then \<lparr>type = ''httpTrigger'', direction = None, props = []\<rparr>
     else if a = 1 then \<lparr>type = ''blob'', direction = Some ''in'', props = [(''path'', ''a'')]\<rparr>
     else \<lparr>type = ''blob'', direction = Some ''out'', props = [(''path'', ''b'')]\<rparr>)"

text \<open>A store with two function.json bindings at 0 and 1 and two bindings from code at 2 and 3.\<close>

definition queueHeap :: heap where
  "queueHeap = (\<lambda>a.
     if a = 0 then \<lparr>type = ''httpTrigger'', direction = Some ''in'', props = []\<rparr>
     else if a = 1 then \<lparr>type = ''queue'', direction = None, props = []\<rparr>
     else if a = 2 then \<lparr>type = ''queue'', direction = Some ''out'', props = []\<rparr>
     else \<lparr>type = ''table'', direction = None, props = []\<rparr>)"

text \<open>A function that declares two trigger types.\<close>

definition dualFunctions :: functionsMap where
  "dualFunctions =
     [(''Both'',
       \<lparr>bindings = Some [\<lparr>type = ''orchestrationTrigger'', direction = None, props = []\<rparr>,
                         \<lparr>type = ''activityTrigger'', direction = None, props = []\<rparr>],
        isCalledBy = [], isSignalledBy = [], isCalledByItself = None, filePath = None,
        pos = None, lineNr = None\<rparr>)]"

text \<open>
  A script-based project in folder \<open>p\<close> with two orchestrators, an activity and two
  other functions, and an empty project in folder \<open>m\<close> whose proxies.json is
  malformed. The sample patterns are plain substring searches.
\<close>

fun search :: "string \<Rightarrow> string \<Rightarrow> nat option" where
  "search pat [] = (if pat = [] then Some 0 else None)"
| "search pat (c # cs) =
     (if take (length pat) (c # cs) = pat then Some 0 else map_option Suc (search pat cs))"

definition sampleWait :: "string \<Rightarrow> nat \<Rightarrow> (string \<times> nat) option" where
  "sampleWait s i =
     (case search ''wait:'' (drop i s) of
        None \<Rightarrow> None
      | Some k \<Rightarrow> Some (takeWhile (\<lambda>c. c \<noteq> CHR '';'') (drop (i + k + 5) s), i + k + 5))"

definition sampleRegexes :: traversalRegexes where
  "sampleRegexes =
     \<lparr>getStartNewOrchestrationRegex = (\<lambda>n. search (''start:'' @ n)),
      getCallSubOrchestratorRegex = (\<lambda>n. search (''sub:'' @ n)),
      getCallActivityRegex = (\<lambda>n. search (''call:'' @ n)),
      continueAsNewRegex = search ''ContinueAsNew('',
      getRaiseEventRegex = (\<lambda>n. search (''raise:'' @ n)),
      getSignalEntityRegex = (\<lambda>n. search (n @ ''>'')),
      waitForExternalEventRegex = sampleWait,
      getDotNetFunctionNameRegex = search\<rparr>"

definition sampleFiles :: "(string \<times> string) list" where
  "sampleFiles =
     [(''p/OrchA'', ''call:ActB;wait:Go;wait:No;''),
      (''p/Loop'', ''ContinueAsNew(x)''),
      (''p/ActB'', ''work''),
      (''p/Start'', ''start:OrchA;raise:Go;''),
      (''p/Stop'', ''raise:No;'')]"

definition sampleDescriptors :: "(string \<times> string) list" where
  "sampleDescriptors =
     [(''p/OrchA/function.json'', ''orchestrationTrigger''),
      (''p/Loop/function.json'', ''orchestrationTrigger''),
      (''p/ActB/function.json'', ''activityTrigger''),
      (''p/Start/function.json'', ''httpTrigger''),
      (''p/Stop/function.json'', ''queueTrigger'')]"

definition seeded :: "string \<Rightarrow> functionInfo" where
  "seeded t =
     \<lparr>bindings = Some [\<lparr>type = t, direction = None, props = []\<rparr>], isCalledBy = [],
      isSignalledBy = [], isCalledByItself = None, filePath = None, pos = None, lineNr = None\<rparr>"

definition sampleFunctions :: functionsMap where
  "sampleFunctions =
     [(''OrchA'', seeded ''orchestrationTrigger''),
      (''Loop'', seeded ''orchestrationTrigger''),
      (''ActB'', seeded ''activityTrigger''),
      (''Start'', seeded ''httpTrigger''),
      (''Stop'', seeded ''queueTrigger'')]"

definition sampleProxiesText :: string where
  "sampleProxiesText = ''{'' @ [CHR 0x22] @ ''foo'' @ [CHR 0x22] @ '':1}''"

definition sampleProxies :: proxiesMap where
  "sampleProxies =
     [(''foo'', \<lparr>proxyFields = [], proxyFilePath = None, warningNotAddedToCsProjFile = None,
               proxyPos = None, proxyLineNr = None\<rparr>),
      (''a/b'', \<lparr>proxyFields = [], proxyFilePath = None, warningNotAddedToCsProjFile = None,
               proxyPos = None, proxyLineNr = None\<rparr>)]"

definition sampleEnv :: env where
  "sampleEnv =
     \<lparr>cloneFromGitHub = (\<lambda>url. None),
      findFileRecursivelyAsync = (\<lambda>folder pattern returnContents regex.
         if pattern = ''host.json''
         then (if folder = ''p'' \<or> folder = ''m''
               then Some \<lparr>matchFilePath = folder @ ''/host.json'', matchCode = [],
                          matchPos = None, matchLength = None\<rparr>
               else None)
         else map_option (\<lambda>c. \<lparr>matchFilePath = folder @ ''/index.js'', matchCode = c,
                                  matchPos = None, matchLength = None\<rparr>)
                (map_of sampleFiles folder)),
      isDotNetIsolatedProjectAsync = (\<lambda>folder. False),
      isDotNetProjectAsync = (\<lambda>folder. False),
      isJavaProjectAsync = (\<lambda>folder. False),
      mkdtemp = (\<lambda>prefix. None),
      tmpdir = ''t'',
      dotnetPublish = (\<lambda>out cwd. False),
      traverseJavaProject = (\<lambda>folder. None),
      traverseDotNetIsolatedProject = (\<lambda>folder. None),
      readdir = (\<lambda>folder. if folder = ''m'' then Some []
                           else if folder = ''p''
                           then Some [''OrchA'', ''Loop'', ''ActB'', ''Start'', ''Stop'', ''host.json'']
                           else None),
      lstatIsDirectory = (\<lambda>path. Some (path \<noteq> ''p/host.json'')),
      existsSync = (\<lambda>path. path = ''m/proxies.json'' \<or> path = ''p/proxies.json''
                             \<or> map_of sampleDescriptors path \<noteq> None),
      readFile = (\<lambda>path. if path = ''m/proxies.json'' then Some ''{''
                           else if path = ''p/proxies.json'' then Some sampleProxiesText
                           else map_of sampleDescriptors path),
      pathJoin = (\<lambda>a b. a @ ''/'' @ b),
      pathDirname = (\<lambda>path. takeWhile (\<lambda>c. c \<noteq> CHR ''/'') path),
      parseFunctionJson = (\<lambda>s. Some (Some [\<lparr>type = s, direction = None, props = []\<rparr>])),
      parseProxiesJson = (\<lambda>s. if s = sampleProxiesText then Proxies sampleProxies
                                 else ParseThrows),
      newRegExp = (\<lambda>pattern. Some (search (takeWhile (\<lambda>c. c \<noteq> CHR 0x5C) pattern @ '':''))),
      getCodeInBrackets = (\<lambda>s start. s),
      posToLineNr = (\<lambda>s p. Suc (length (filter (\<lambda>c. c = CHR 0x0A) (take p s)))),
      tryExtractBindings = (\<lambda>s. [])\<rparr>"

section \<open>BindingEnricher\<close>

lemma pushExtracted_eq:
  "pushExtracted h ts fj fc = fj @ filter (\<lambda>c. type (h c) \<notin> set ts) fc"
  by (induction fc arbitrary: fj) auto

lemma setDirection_eq:
  "setDirection h fc b = h(b := inferDirection (map h fc) (h b))"
proof -
  have f: "filter (\<lambda>c. type c = type (h b)) (map h fc) =
           map h (filter (\<lambda>c. type (h c) = type (h b)) fc)"
    by (simp add: filter_map comp_def)
  show ?thesis
  proof (cases "filter (\<lambda>c. type (h c) = type (h b)) fc")
    case Nil
    then show ?thesis by (simp add: setDirection_def inferDirection_def f)
  next
    case (Cons c cs)
    then show ?thesis
      by (cases cs) (simp_all add: setDirection_def inferDirection_def f)
  qed
qed

lemma inferDirection_type [simp]: "type (inferDirection cands b) = type b"
  by (simp add: inferDirection_def split: list.splits)

lemma inferDirection_idem:
  "inferDirection cands (inferDirection cands b) = inferDirection cands b"
  by (auto simp: inferDirection_def noDirection_def split: list.splits)

text \<open>
  A binding that is itself one of the candidates is never changed: when it is the only
  candidate of its type, its own direction is assigned to it.
\<close>

lemma inferDirection_self:
  assumes "b \<in> set cands"
  shows "inferDirection cands b = b"
proof (cases "filter (\<lambda>c. type c = type b) cands")
  case Nil
  then show ?thesis by (simp add: inferDirection_def)
next
  case (Cons c cs)
  from assms have "b \<in> set (filter (\<lambda>c. type c = type b) cands)" by simp
  with Cons show ?thesis
    by (cases cs) (auto simp: inferDirection_def)
qed

lemma setDirection_map_fromCode:
  "map (setDirection h fc b) fc = map h fc"
proof (cases "b \<in> set fc")
  case True
  then show ?thesis by (simp add: setDirection_eq inferDirection_self)
next
  case False
  then show ?thesis by (auto simp: setDirection_eq)
qed

text \<open>
  The second loop, whatever the sharing between the two arrays: the objects extracted
  from code keep their values throughout, so every object of the merged array ends as
  \<open>inferDirection\<close> of its initial value.
\<close>

lemma setDefaultDirections_eq:
  "setDefaultDirections h fc bs =
     (\<lambda>a. if a \<in> set bs then inferDirection (map h fc) (h a) else h a)"
proof (induction bs arbitrary: h)
  case Nil
  show ?case by simp
next
  case (Cons b bs)
  have m: "map (setDirection h fc b) fc = map h fc" by (rule setDirection_map_fromCode)
  have "setDefaultDirections h fc (b # bs) a =
        (if a \<in> set (b # bs) then inferDirection (map h fc) (h a) else h a)" for a
    unfolding setDefaultDirections.simps Cons.IH m
    by (simp add: setDirection_eq inferDirection_idem)
  then show ?case by blast
qed

lemma enrichBindings_merged:
  "snd (enrichBindings h fj fc) =
     fj @ filter (\<lambda>c. type (h c) \<notin> set (map (\<lambda>b. type (h b)) fj)) fc"
  by (simp add: enrichBindings_def Let_def pushExtracted_eq)

lemma enrichBindings_heap:
  "fst (enrichBindings h fj fc) a =
     (if a \<in> set (snd (enrichBindings h fj fc)) then inferDirection (map h fc) (h a) else h a)"
  by (simp add: enrichBindings_def Let_def setDefaultDirections_eq)

lemma enrichBindings_heap_type: "type (fst (enrichBindings h fj fc) a) = type (h a)"
  by (simp add: enrichBindings_heap)

lemma enrichBindings_heap_fromCode:
  "c \<in> set fc \<Longrightarrow> fst (enrichBindings h fj fc) c = h c"
  by (simp add: enrichBindings_heap inferDirection_self)

lemma map_nth_append_left: "map ((!) (xs @ ys)) [0..<length xs] = xs"
  by (rule nth_equalityI) (simp_all add: nth_append)

lemma map_nth_append_right: "map ((!) (xs @ ys)) [length xs..<length xs + length ys] = ys"
  by (rule nth_equalityI) (simp_all add: nth_append)

text \<open>The enrichment on values.\<close>

lemma enrichFunction_eq:
  "enrichFunction fj fc =
     map (inferDirection fc) (fj @ filter (\<lambda>c. type c \<notin> set (map type fj)) fc)"
proof -
  let ?h = "(!) (fj @ fc)"
  let ?A = "[0..<length fj]"
  let ?B = "[length fj..<length fj + length fc]"
  have A: "map ?h ?A = fj" by (rule map_nth_append_left)
  have B: "map ?h ?B = fc" by (rule map_nth_append_right)
  have tA: "map (\<lambda>b. type (?h b)) ?A = map type fj"
    using arg_cong [OF A, of "map type"] by (simp add: comp_def)
  have m: "snd (enrichBindings ?h ?A ?B) = ?A @ filter (\<lambda>c. type (?h c) \<notin> set (map type fj)) ?B"
    unfolding enrichBindings_merged tA ..
  have f: "map ?h (filter (\<lambda>c. type (?h c) \<notin> set (map type fj)) ?B)
      = filter (\<lambda>c. type c \<notin> set (map type fj)) fc"
    using arg_cong [OF B, of "filter (\<lambda>c. type c \<notin> set (map type fj))"]
    by (simp add: filter_map comp_def)
  have "enrichedBindings ?h ?A ?B =
      map (\<lambda>a. inferDirection (map ?h ?B) (?h a)) (snd (enrichBindings ?h ?A ?B))"
    by (simp add: enrichedBindings_def case_prod_unfold enrichBindings_heap)
  also have "\<dots> = map (inferDirection fc) (map ?h (snd (enrichBindings ?h ?A ?B)))"
    unfolding B by (simp add: comp_def)
  also have "map ?h (snd (enrichBindings ?h ?A ?B))
      = fj @ filter (\<lambda>c. type c \<notin> set (map type fj)) fc"
    unfolding m map_append A f ..
  finally show ?thesis by (simp add: enrichFunction_def Let_def)
qed

lemma enrichBindings_blobHeap:
  "enrichBindings blobHeap [0] [1, 2] = (blobHeap, [0, 1, 2])"
proof -
  have "snd (enrichBindings blobHeap [0] [1, 2]) = [0, 1, 2]"
    by (simp add: enrichBindings_merged blobHeap_def)
  moreover have "fst (enrichBindings blobHeap [0] [1, 2]) a = blobHeap a" for a
    by (simp add: enrichBindings_heap enrichBindings_merged inferDirection_def noDirection_def
        blobHeap_def)
  then have "fst (enrichBindings blobHeap [0] [1, 2]) = blobHeap" by blast
  ultimately show ?thesis by (simp add: prod_eq_iff)
qed

lemma enrichBindings_queueHeap:
  "enrichBindings queueHeap [0, 1] [2, 3] =
     (queueHeap(1 := \<lparr>type = ''queue'', direction = Some ''out'', props = []\<rparr>), [0, 1, 3])"
proof -
  have "snd (enrichBindings queueHeap [0, 1] [2, 3]) = [0, 1, 3]"
    by (simp add: enrichBindings_merged queueHeap_def)
  moreover have "fst (enrichBindings queueHeap [0, 1] [2, 3]) a =
      (queueHeap(1 := \<lparr>type = ''queue'', direction = Some ''out'', props = []\<rparr>)) a" for a
    by (simp add: enrichBindings_heap enrichBindings_merged inferDirection_def noDirection_def
        queueHeap_def)
  then have "fst (enrichBindings queueHeap [0, 1] [2, 3]) =
      queueHeap(1 := \<lparr>type = ''queue'', direction = Some ''out'', props = []\<rparr>)" by blast
  ultimately show ?thesis by (simp add: prod_eq_iff)
qed

text \<open>
  C2, as stated, fails: function.json declares an httpTrigger, the code yields two blob
  bindings; both are pushed, and the function ends with two bindings of type blob.
\<close>

theorem enrich_pushes_both_blob_bindings:
  "map type (enrichedBindings blobHeap [0] [1, 2]) = [''httpTrigger'', ''blob'', ''blob'']
   \<and> \<not> distinct (map type (enrichedBindings blobHeap [0] [1, 2]))"
  by (simp only: enrichedBindings_def enrichBindings_blobHeap) (simp add: blobHeap_def)

text \<open>
  C2, amended: a binding extracted from code is appended exactly when no binding of its
  type is in the array as function.json gave it (the types pushed meanwhile are not
  looked at); types never change. So the function ends with at most one binding of any
  type whenever function.json has no type twice and the bindings extracted from code
  whose type function.json lacks have pairwise different types.
\<close>

theorem enrich_appends_types_absent_from_function_json:
  assumes "enrichBindings h fj fc = (h', merged)"
  shows "merged = fj @ filter (\<lambda>c. type (h c) \<notin> set (map (\<lambda>b. type (h b)) fj)) fc
       \<and> (\<forall>a. type (h' a) = type (h a))
       \<and> (distinct (map (\<lambda>b. type (h b)) fj)
            \<and> distinct (map (\<lambda>c. type (h c))
                  (filter (\<lambda>c. type (h c) \<notin> set (map (\<lambda>b. type (h b)) fj)) fc))
          \<longrightarrow> distinct (map (\<lambda>b. type (h' b)) merged))"
proof -
  from assms have m: "merged = snd (enrichBindings h fj fc)"
    and h': "h' = fst (enrichBindings h fj fc)"
    by simp_all
  have t: "type (h' a) = type (h a)" for a
    unfolding h' by (rule enrichBindings_heap_type)
  have m': "merged = fj @ filter (\<lambda>c. type (h c) \<notin> set (map (\<lambda>b. type (h b)) fj)) fc"
    unfolding m by (rule enrichBindings_merged)
  have "distinct (map (\<lambda>b. type (h b)) merged)"
    if "distinct (map (\<lambda>b. type (h b)) fj)"
      and "distinct (map (\<lambda>c. type (h c))
                  (filter (\<lambda>c. type (h c) \<notin> set (map (\<lambda>b. type (h b)) fj)) fc))"
    using that unfolding m' by (auto simp: image_iff)
  with t m' show ?thesis by simp
qed

theorem enrich_appends_types_absent_from_function_json_witness:
  "enrichBindings queueHeap [0, 1] [2, 3] =
     (queueHeap(1 := \<lparr>type = ''queue'', direction = Some ''out'', props = []\<rparr>), [0, 1, 3])
   \<and> distinct (map (\<lambda>b. type (queueHeap b)) [0, 1])
   \<and> distinct (map (\<lambda>b. type ((queueHeap(1 := \<lparr>type = ''queue'', direction = Some ''out'',
        props = []\<rparr>)) b)) [0, 1, 3])"
proof -
  have d1: "distinct (map (\<lambda>b. type (queueHeap b)) [0, 1])"
    by (simp add: queueHeap_def)
  have d2: "distinct (map (\<lambda>c. type (queueHeap c))
      (filter (\<lambda>c. type (queueHeap c) \<notin> set (map (\<lambda>b. type (queueHeap b)) [0, 1])) [2, 3]))"
    by (simp add: queueHeap_def)
  from enrich_appends_types_absent_from_function_json [OF enrichBindings_queueHeap] d1 d2
  have "distinct (map (\<lambda>b. type ((queueHeap(1 := \<lparr>type = ''queue'', direction = Some ''out'',
        props = []\<rparr>)) b)) [0, 1, 3])"
    by blast
  with d1 enrichBindings_queueHeap show ?thesis by blast
qed

text \<open>
  C8: let \<open>b\<close> be a binding of the merged array that lacks a direction. If exactly one
  binding \<open>c\<close> of its type was extracted from code, \<open>b\<close> ends with the direction of
  \<open>c\<close> and is otherwise unchanged; if none or several were, \<open>b\<close> is unchanged and
  still lacks a direction. This holds whatever objects the two arrays share.
\<close>

theorem direction_copied_from_the_only_candidate:
  assumes "enrichBindings h fj fc = (h', merged)"
    and "b \<in> set merged"
    and "noDirection (h b)"
  shows "(\<forall>c. filter (\<lambda>c. type (h c) = type (h b)) fc = [c]
            \<longrightarrow> h' b = (h b)\<lparr>direction := direction (h c)\<rparr>
              \<and> direction (h' b) = direction (h' c))
       \<and> (length (filter (\<lambda>c. type (h c) = type (h b)) fc) \<noteq> 1
            \<longrightarrow> h' b = h b \<and> noDirection (h' b))"
proof -
  from assms(1) have m: "merged = snd (enrichBindings h fj fc)"
    and h': "h' = fst (enrichBindings h fj fc)"
    by simp_all
  have f: "filter (\<lambda>c. type c = type (h b)) (map h fc) =
           map h (filter (\<lambda>c. type (h c) = type (h b)) fc)"
    by (simp add: filter_map comp_def)
  from assms(2) have hb: "h' b = inferDirection (map h fc) (h b)"
    unfolding h' m by (simp add: enrichBindings_heap)
  have one: "h' b = (h b)\<lparr>direction := direction (h c)\<rparr> \<and> direction (h' b) = direction (h' c)"
    if "filter (\<lambda>c. type (h c) = type (h b)) fc = [c]" for c
  proof -
    from that have "c \<in> set (filter (\<lambda>c. type (h c) = type (h b)) fc)" by simp
    then have "c \<in> set fc" by simp
    then have "h' c = h c" unfolding h' by (rule enrichBindings_heap_fromCode)
    moreover have "h' b = (h b)\<lparr>direction := direction (h c)\<rparr>"
      using that assms(3) by (simp add: hb inferDirection_def f)
    ultimately show ?thesis by simp
  qed
  have other: "h' b = h b \<and> noDirection (h' b)"
    if "length (filter (\<lambda>c. type (h c) = type (h b)) fc) \<noteq> 1"
  proof -
    have "h' b = h b"
    proof (cases "filter (\<lambda>c. type (h c) = type (h b)) fc")
      case Nil
      then show ?thesis by (simp add: hb inferDirection_def f)
    next
      case (Cons c cs)
      with that show ?thesis
        by (cases cs) (simp_all add: hb inferDirection_def f)
    qed
    with assms(3) show ?thesis by simp
  qed
  from one other show ?thesis by blast
qed

theorem direction_copied_from_the_only_candidate_witness:
  "enrichBindings queueHeap [0, 1] [2, 3] =
     (queueHeap(1 := \<lparr>type = ''queue'', direction = Some ''out'', props = []\<rparr>), [0, 1, 3])
   \<and> 1 \<in> set [0, 1, 3 :: nat] \<and> noDirection (queueHeap 1)
   \<and> filter (\<lambda>c. type (queueHeap c) = type (queueHeap 1)) [2, 3] = [2]
   \<and> direction ((queueHeap(1 := \<lparr>type = ''queue'', direction = Some ''out'', props = []\<rparr>)) 1)
       = direction (queueHeap 2)"
proof -
  have b: "1 \<in> set [0, 1, 3 :: nat]" by simp
  have n: "noDirection (queueHeap 1)" by (simp add: noDirection_def queueHeap_def)
  have c: "filter (\<lambda>c. type (queueHeap c) = type (queueHeap 1)) [2, 3] = [2]"
    by (simp add: queueHeap_def)
  from direction_copied_from_the_only_candidate [OF enrichBindings_queueHeap b n] c
  have "(queueHeap(1 := \<lparr>type = ''queue'', direction = Some ''out'', props = []\<rparr>)) 1
        = (queueHeap 1)\<lparr>direction := direction (queueHeap 2)\<rparr>"
    by blast
  then have "direction ((queueHeap(1 := \<lparr>type = ''queue'', direction = Some ''out'',
      props = []\<rparr>)) 1) = direction (queueHeap 2)"
    by (simp add: queueHeap_def)
  with b n c show ?thesis by (simp only: enrichBindings_queueHeap simp_thms)
qed

text \<open>
  C7: a second run of the enrichment changes nothing. The second run starts from the
  array the first run left, in any store \<open>g\<close> that agrees with the first run's on that
  array, and with candidates \<open>fc2\<close> that have the values of the first run's (the same
  objects, or the fresh ones a second extraction from the same code yields): it pushes
  no binding and leaves the store as it is.
\<close>

theorem enrich_twice_is_enrich_once:
  assumes "enrichBindings h fj fc = (h1, merged)"
    and "\<forall>a \<in> set merged. g a = h1 a"
    and "map g fc2 = map h fc"
  shows "enrichBindings g merged fc2 = (g, merged)"
proof -
  from assms(1) have m: "merged = snd (enrichBindings h fj fc)"
    and h1: "h1 = fst (enrichBindings h fj fc)"
    by simp_all
  have m': "merged = fj @ filter (\<lambda>c. type (h c) \<notin> set (map (\<lambda>b. type (h b)) fj)) fc"
    unfolding m by (rule enrichBindings_merged)
  have g: "g a = inferDirection (map h fc) (h a)" if "a \<in> set merged" for a
    using that assms(2) unfolding h1 m by (simp add: enrichBindings_heap)
  have types: "set (map (\<lambda>c. type (h c)) fc) \<subseteq> set (map (\<lambda>b. type (g b)) merged)"
  proof
    fix t assume "t \<in> set (map (\<lambda>c. type (h c)) fc)"
    then obtain c where c: "c \<in> set fc" "t = type (h c)" by auto
    show "t \<in> set (map (\<lambda>b. type (g b)) merged)"
    proof (cases "t \<in> set (map (\<lambda>b. type (h b)) fj)")
      case True
      then obtain b where b: "b \<in> set fj" "t = type (h b)" by auto
      then have "b \<in> set merged" by (simp add: m')
      with g[OF this] b show ?thesis by force
    next
      case False
      with c have "c \<in> set merged" by (simp add: m')
      with g[OF this] c show ?thesis by force
    qed
  qed
  have tys2: "map (\<lambda>c. type (g c)) fc2 = map (\<lambda>c. type (h c)) fc"
  proof -
    have "map type (map g fc2) = map type (map h fc)" by (simp only: assms(3))
    then show ?thesis by (simp add: comp_def)
  qed
  have nopush: "filter (\<lambda>c. type (g c) \<notin> set (map (\<lambda>b. type (g b)) merged)) fc2 = []"
  proof -
    have "type (g c) \<in> set (map (\<lambda>b. type (g b)) merged)" if "c \<in> set fc2" for c
    proof -
      from that have "type (g c) \<in> set (map (\<lambda>c. type (g c)) fc2)" by simp
      with tys2 types show ?thesis by auto
    qed
    then show ?thesis by (simp add: filter_empty_conv)
  qed
  have snd2: "snd (enrichBindings g merged fc2) = merged"
    by (simp only: enrichBindings_merged nopush append_Nil2)
  have "fst (enrichBindings g merged fc2) a = g a" for a
    unfolding enrichBindings_heap snd2 assms(3)
    by (auto simp: g inferDirection_idem)
  then have "fst (enrichBindings g merged fc2) = g" by blast
  with snd2 show ?thesis by (simp add: prod_eq_iff)
qed

theorem enrich_twice_is_enrich_once_witness:
  "enrichBindings queueHeap [0, 1] [2, 3] =
     (queueHeap(1 := \<lparr>type = ''queue'', direction = Some ''out'', props = []\<rparr>), [0, 1, 3])
   \<and> enrichBindings (queueHeap(1 := \<lparr>type = ''queue'', direction = Some ''out'', props = []\<rparr>))
       [0, 1, 3] [2, 3] =
     (queueHeap(1 := \<lparr>type = ''queue'', direction = Some ''out'', props = []\<rparr>), [0, 1, 3])"
proof -
  have "enrichBindings (queueHeap(1 := \<lparr>type = ''queue'', direction = Some ''out'', props = []\<rparr>))
       [0, 1, 3] [2, 3] =
     (queueHeap(1 := \<lparr>type = ''queue'', direction = Some ''out'', props = []\<rparr>), [0, 1, 3])"
    by (rule enrich_twice_is_enrich_once [OF enrichBindings_queueHeap]) simp_all
  then show ?thesis by (simp only: enrichBindings_queueHeap simp_thms)
qed

section \<open>Classification\<close>

lemma sample_wellformed: "\<not> list_ex (\<lambda>(n, f). bindings f = None) sampleFunctions"
  by (simp add: sampleFunctions_def seeded_def)

lemma sample_distinct: "distinct (map fst sampleFunctions)"
  by (simp add: sampleFunctions_def)

text \<open>
  C1, as stated, fails: a function that declares an orchestration trigger and an activity
  trigger is in the orchestrator list and in the activity list.
\<close>

theorem function_with_two_triggers_is_in_two_lists:
  "''Both'' \<in> set (orchestratorNames dualFunctions)
   \<and> ''Both'' \<in> set (activityNames dualFunctions)
   \<and> length (listsContaining dualFunctions ''Both'') = 2"
  by (simp add: listsContaining_def orchestratorNames_def activityNames_def entityNames_def
      otherFunctionNames_def bindingsOf_def dualFunctions_def)

text \<open>
  C1, amended: the four lists come from four independent tests, not from a first match.
  A function is in the orchestrator list iff it has an orchestrationTrigger binding, in
  the activity list iff it has an activityTrigger binding, in the entity list iff it has
  an entityTrigger binding, and in the other list iff it is in none of the three. So a
  function that declares \<open>k\<close> of the three trigger types is in exactly \<open>max 1 k\<close> of the
  four lists: in exactly one when it declares at most one trigger type, in several when
  it declares several.
\<close>

theorem classification_by_independent_tests:
  assumes "\<not> list_ex (\<lambda>(n, f). bindings f = None) fs"
    and "n \<in> set (map fst fs)"
  shows "(n \<in> set (orchestratorNames fs)
            \<longleftrightarrow> list_ex (\<lambda>b. type b = ''orchestrationTrigger'') (bindingsOf fs n))
       \<and> (n \<in> set (activityNames fs)
            \<longleftrightarrow> list_ex (\<lambda>b. type b = ''activityTrigger'') (bindingsOf fs n))
       \<and> (n \<in> set (entityNames fs)
            \<longleftrightarrow> list_ex (\<lambda>b. type b = ''entityTrigger'') (bindingsOf fs n))
       \<and> (n \<in> set (otherFunctionNames fs)
            \<longleftrightarrow> n \<notin> set (orchestratorNames fs) \<and> n \<notin> set (activityNames fs)
                \<and> n \<notin> set (entityNames fs))
       \<and> length (listsContaining fs n) = max 1 (length (declaredTriggers fs n))"
proof -
  from assms(2) have o: "n \<in> set (orchestratorNames fs)
            \<longleftrightarrow> list_ex (\<lambda>b. type b = ''orchestrationTrigger'') (bindingsOf fs n)"
    by (simp add: orchestratorNames_def)
  from assms(2) have a: "n \<in> set (activityNames fs)
            \<longleftrightarrow> list_ex (\<lambda>b. type b = ''activityTrigger'') (bindingsOf fs n)"
    by (simp add: activityNames_def)
  from assms(2) have t: "n \<in> set (entityNames fs)
            \<longleftrightarrow> list_ex (\<lambda>b. type b = ''entityTrigger'') (bindingsOf fs n)"
    by (simp add: entityNames_def)
  from assms(2) have x: "n \<in> set (otherFunctionNames fs)
            \<longleftrightarrow> \<not> list_ex (\<lambda>b. type b = ''orchestrationTrigger'') (bindingsOf fs n)
              \<and> \<not> list_ex (\<lambda>b. type b = ''activityTrigger'') (bindingsOf fs n)
              \<and> \<not> list_ex (\<lambda>b. type b = ''entityTrigger'') (bindingsOf fs n)"
    by (auto simp: otherFunctionNames_def list_ex_iff)
  have "length (listsContaining fs n) = max 1 (length (declaredTriggers fs n))"
    unfolding listsContaining_def declaredTriggers_def
    by (simp add: o a t x)
  with o a t x show ?thesis by simp
qed

theorem classification_by_independent_tests_witness:
  "\<not> list_ex (\<lambda>(n, f). bindings f = None) sampleFunctions
   \<and> ''OrchA'' \<in> set (map fst sampleFunctions)
   \<and> ''OrchA'' \<in> set (orchestratorNames sampleFunctions)
   \<and> ''OrchA'' \<notin> set (otherFunctionNames sampleFunctions)
   \<and> length (listsContaining sampleFunctions ''OrchA'') = 1"
proof -
  have k: "''OrchA'' \<in> set (map fst sampleFunctions)" by (simp add: sampleFunctions_def)
  have b: "bindingsOf sampleFunctions ''OrchA''
      = [\<lparr>type = ''orchestrationTrigger'', direction = None, props = []\<rparr>]"
    by (simp add: bindingsOf_def sampleFunctions_def seeded_def)
  have d: "declaredTriggers sampleFunctions ''OrchA'' = [''orchestrationTrigger'']"
    by (simp add: declaredTriggers_def b)
  from classification_by_independent_tests [OF sample_wellformed k] k sample_wellformed
  show ?thesis by (simp add: b d)
qed

section \<open>The event-name loop\<close>

lemma advancesD:
  "advances regex body \<Longrightarrow> i \<le> length body \<Longrightarrow> regex body i = Some (m, j)
   \<Longrightarrow> i < j \<and> j \<le> length body"
proof -
  assume a: "advances regex body" and i: "i \<le> length body" and r: "regex body i = Some (m, j)"
  from i have "i \<in> set [0..<Suc (length body)]" by (simp del: upt_Suc)
  with a have "case regex body i of None \<Rightarrow> True | Some (m, j) \<Rightarrow> i < j \<and> j \<le> length body"
    unfolding advances_def list_all_iff by blast
  with r show ?thesis by simp
qed

lemma getEventNames_loop_terminates:
  "advances regex body \<Longrightarrow> i \<le> length body \<Longrightarrow> length body - i < fuel
   \<Longrightarrow> getEventNames_loop regex body i acc = Some (acc @ matchesFrom regex body fuel i)"
proof (induction fuel arbitrary: i acc)
  case 0
  then show ?case by simp
next
  case (Suc fuel)
  show ?case
  proof (cases "regex body i")
    case None
    then show ?thesis by (subst getEventNames_loop.simps) simp
  next
    case (Some mj)
    obtain m j where mj: "mj = (m, j)" by (cases mj)
    from advancesD [OF Suc.prems(1,2)] Some mj have ij: "i < j" "j \<le> length body" by auto
    with Suc.prems(3) have "length body - j < fuel" by arith
    from Suc.IH [OF Suc.prems(1) ij(2) this, of "acc @ [m]"] Some mj
    show ?thesis by (subst getEventNames_loop.simps) simp
  qed
qed

text \<open>On a pattern that advances, \<open>getEventNames\<close> returns, with every match.\<close>

lemma getEventNames_terminates:
  "advances (waitForExternalEventRegex rx) body \<Longrightarrow>
   getEventNames rx body =
     Some (matchesFrom (waitForExternalEventRegex rx) body (Suc (length body)) 0)"
  using getEventNames_loop_terminates [of "waitForExternalEventRegex rx" body 0 "Suc (length body)" "[]"]
  by (simp add: getEventNames_def)

section \<open>The passes of the mapping, field by field\<close>

lemma map_fst_updateFunction [simp]: "map fst (updateFunction n f fs) = map fst fs"
  by (induction fs) (auto simp: updateFunction_def)

lemma map_of_updateFunction:
  "map_of (updateFunction n f fs) k = (if k = n then map_option f (map_of fs k) else map_of fs k)"
  by (induction fs) (auto simp: updateFunction_def)

text \<open>A pass leaves alone every field \<open>p\<close> that does not depend on the fields it assigns.\<close>

lemma updateFunction_frame:
  "(\<And>x. p (f x) = p x) \<Longrightarrow>
   map_option p (map_of (updateFunction n f fs) k) = map_option p (map_of fs k)"
  by (simp add: map_of_updateFunction option.map_comp comp_def)

lemma pushIsCalledBy_frame:
  "(\<And>x l. p (x\<lparr>isCalledBy := l\<rparr>) = p x) \<Longrightarrow>
   map_option p (map_of (pushIsCalledBy t c fs) k) = map_option p (map_of fs k)"
  unfolding pushIsCalledBy_def by (rule updateFunction_frame) simp

lemma pushIsSignalledBy_frame:
  "(\<And>x l. p (x\<lparr>isSignalledBy := l\<rparr>) = p x) \<Longrightarrow>
   map_option p (map_of (pushIsSignalledBy t c fs) k) = map_option p (map_of fs k)"
  unfolding pushIsSignalledBy_def by (rule updateFunction_frame) simp

lemma mapCallingFunctions_frame:
  "(\<And>x l. p (x\<lparr>isCalledBy := l\<rparr>) = p x) \<Longrightarrow>
   map_option p (map_of (mapCallingFunctions regex t fs funcs) k) = map_option p (map_of fs k)"
  by (induction funcs arbitrary: fs) (simp_all add: pushIsCalledBy_frame)

lemma mapSubOrchestrators_frame:
  "(\<And>x l. p (x\<lparr>isCalledBy := l\<rparr>) = p x) \<Longrightarrow>
   map_option p (map_of (mapSubOrchestrators rx orch fs subs) k) = map_option p (map_of fs k)"
  by (induction subs arbitrary: fs) (simp_all add: pushIsCalledBy_frame)

lemma mapActivitiesToOrchestrator_frame:
  "(\<And>x l. p (x\<lparr>isCalledBy := l\<rparr>) = p x) \<Longrightarrow>
   map_option p (map_of (mapActivitiesToOrchestrator rx fs orch acts) k) = map_option p (map_of fs k)"
  by (induction acts arbitrary: fs) (simp_all add: pushIsCalledBy_frame)

lemma mapEntities_frame:
  "(\<And>x l. p (x\<lparr>isCalledBy := l\<rparr>) = p x) \<Longrightarrow>
   map_option p (map_of (mapEntities rx others fs ents) k) = map_option p (map_of fs k)"
  by (induction ents arbitrary: fs) (simp_all add: mapCallingFunctions_frame)

lemma mapSendingFunctions_frame:
  "(\<And>x l. p (x\<lparr>isSignalledBy := l\<rparr>) = p x) \<Longrightarrow>
   map_option p (map_of (mapSendingFunctions regex t ev fs funcs) k) = map_option p (map_of fs k)"
  by (induction funcs arbitrary: fs) (simp_all add: pushIsSignalledBy_frame)

lemma mapEventProducers_frame:
  "(\<And>x l. p (x\<lparr>isSignalledBy := l\<rparr>) = p x) \<Longrightarrow>
   map_option p (map_of (mapEventProducers rx t others fs evs) k) = map_option p (map_of fs k)"
  by (induction evs arbitrary: fs) (simp_all add: mapSendingFunctions_frame)

lemma enrichFromCode_frame:
  "(\<And>x l. p (x\<lparr>bindings := l\<rparr>) = p x) \<Longrightarrow>
   map_option p (map_of (enrichFromCode e fs funcs) k) = map_option p (map_of fs k)"
  by (induction funcs arbitrary: fs) (simp_all add: updateFunction_frame)

lemma addFilePaths_frame:
  "(\<And>x a b c. p (x\<lparr>filePath := a, pos := b, lineNr := c\<rparr>) = p x) \<Longrightarrow>
   map_option p (map_of (addFilePaths fs funcs) k) = map_option p (map_of fs k)"
  by (induction funcs arbitrary: fs) (simp_all add: updateFunction_frame)

subsection \<open>isSignalledBy\<close>

lemma pushIsSignalledBy_signals:
  "signalledBy (pushIsSignalledBy t entry fs) k =
   map_option (\<lambda>l. l @ (if k = t then [entry] else [])) (signalledBy fs k)"
  by (simp add: signalledBy_def pushIsSignalledBy_def map_of_updateFunction option.map_comp
      comp_def)

lemma mapSendingFunctions_signals:
  "signalledBy (mapSendingFunctions regex t ev fs funcs) k =
   map_option (\<lambda>l. l @ (if k = t
       then map (\<lambda>func. (name func, ev)) (filter (\<lambda>func. regex (code func) \<noteq> None) funcs)
       else [])) (signalledBy fs k)"
proof (induction funcs arbitrary: fs)
  case Nil
  show ?case by (simp add: option.map_ident)
next
  case (Cons func funcs)
  show ?case
    by (simp add: Cons.IH pushIsSignalledBy_signals option.map_comp comp_def)
qed

lemma mapEventProducers_signals:
  "signalledBy (mapEventProducers rx t others fs evs) k =
   map_option (\<lambda>l. l @ (if k = t then signalsOf rx others evs else [])) (signalledBy fs k)"
proof (induction evs arbitrary: fs)
  case Nil
  show ?case by (simp add: signalsOf_def option.map_ident)
next
  case (Cons ev evs)
  show ?case
    by (simp add: Cons.IH mapSendingFunctions_signals option.map_comp comp_def signalsOf_def)
qed

lemma mapOrchestrator_SomeD:
  assumes "mapOrchestrator rx others orchs acts fs orch = Some fs'"
  obtains evs where "getEventNames rx (code orch) = Some evs"
    and "fs' = mapEventProducers rx (name orch) others
          (if continueAsNewRegex rx (code orch) \<noteq> None
           then updateFunction (name orch) (\<lambda>f. f\<lparr>isCalledByItself := Some True\<rparr>)
                  (mapActivitiesToOrchestrator rx
                    (mapSubOrchestrators rx orch
                      (mapCallingFunctions (getStartNewOrchestrationRegex rx (name orch))
                         (name orch) fs others) orchs) orch acts)
           else mapActivitiesToOrchestrator rx
                    (mapSubOrchestrators rx orch
                      (mapCallingFunctions (getStartNewOrchestrationRegex rx (name orch))
                         (name orch) fs others) orchs) orch acts) evs"
proof (cases "getEventNames rx (code orch)")
  case None
  with assms show ?thesis by (simp add: mapOrchestrator_def Let_def)
next
  case (Some evs)
  with assms have "fs' = mapEventProducers rx (name orch) others
          (if continueAsNewRegex rx (code orch) \<noteq> None
           then updateFunction (name orch) (\<lambda>f. f\<lparr>isCalledByItself := Some True\<rparr>)
                  (mapActivitiesToOrchestrator rx
                    (mapSubOrchestrators rx orch
                      (mapCallingFunctions (getStartNewOrchestrationRegex rx (name orch))
                         (name orch) fs others) orchs) orch acts)
           else mapActivitiesToOrchestrator rx
                    (mapSubOrchestrators rx orch
                      (mapCallingFunctions (getStartNewOrchestrationRegex rx (name orch))
                         (name orch) fs others) orchs) orch acts) evs"
    unfolding mapOrchestrator_def Let_def by (simp split: if_splits)
  with Some that show ?thesis by blast
qed

lemma mapOrchestrator_signals:
  "mapOrchestrator rx others orchs acts fs orch = Some fs' \<Longrightarrow>
   signalledBy fs' k =
   map_option (\<lambda>l. l @ (if k = name orch then signalsFoundBy rx others orch else []))
     (signalledBy fs k)"
proof -
  assume a: "mapOrchestrator rx others orchs acts fs orch = Some fs'"
  define fs3 where "fs3 = mapActivitiesToOrchestrator rx
      (mapSubOrchestrators rx orch
        (mapCallingFunctions (getStartNewOrchestrationRegex rx (name orch)) (name orch) fs others)
        orchs) orch acts"
  define fs4 where "fs4 = (if continueAsNewRegex rx (code orch) \<noteq> None
      then updateFunction (name orch) (\<lambda>f. f\<lparr>isCalledByItself := Some True\<rparr>) fs3 else fs3)"
  from a obtain evs where evs: "getEventNames rx (code orch) = Some evs"
    and fs': "fs' = mapEventProducers rx (name orch) others fs4 evs"
    unfolding fs3_def fs4_def by (rule mapOrchestrator_SomeD)
  have s3: "signalledBy fs3 k = signalledBy fs k"
    by (simp add: signalledBy_def fs3_def mapActivitiesToOrchestrator_frame
        mapSubOrchestrators_frame mapCallingFunctions_frame)
  have s4: "signalledBy fs4 k = signalledBy fs k"
    using s3 by (simp add: signalledBy_def fs4_def updateFunction_frame)
  show ?thesis
    by (simp add: fs' mapEventProducers_signals s4 signalsFoundBy_def evs)
qed

lemma mapOrchestrators_signals:
  "mapOrchestrators rx others orchs acts fs os = Some fs' \<Longrightarrow>
   signalledBy fs' k =
   map_option (\<lambda>l. l @ concat (map (signalsFoundBy rx others) (filter (\<lambda>orch. name orch = k) os)))
     (signalledBy fs k)"
proof (induction os arbitrary: fs)
  case Nil
  then show ?case by (simp add: option.map_ident)
next
  case (Cons orch os)
  from Cons.prems obtain fs1 where one: "mapOrchestrator rx others orchs acts fs orch = Some fs1"
    and rest: "mapOrchestrators rx others orchs acts fs1 os = Some fs'"
    by (auto split: option.splits)
  show ?case
    unfolding Cons.IH [OF rest] mapOrchestrator_signals [OF one]
    by (auto simp: option.map_comp comp_def)
qed

subsection \<open>isCalledByItself\<close>

lemma mapOrchestrator_itself:
  "mapOrchestrator rx others orchs acts fs orch = Some fs' \<Longrightarrow>
   calledByItself fs' k =
   map_option (\<lambda>v. if name orch = k \<and> continueAsNewRegex rx (code orch) \<noteq> None
                     then Some True else v) (calledByItself fs k)"
proof -
  assume a: "mapOrchestrator rx others orchs acts fs orch = Some fs'"
  define fs3 where "fs3 = mapActivitiesToOrchestrator rx
      (mapSubOrchestrators rx orch
        (mapCallingFunctions (getStartNewOrchestrationRegex rx (name orch)) (name orch) fs others)
        orchs) orch acts"
  define fs4 where "fs4 = (if continueAsNewRegex rx (code orch) \<noteq> None
      then updateFunction (name orch) (\<lambda>f. f\<lparr>isCalledByItself := Some True\<rparr>) fs3 else fs3)"
  from a obtain evs where evs: "getEventNames rx (code orch) = Some evs"
    and fs': "fs' = mapEventProducers rx (name orch) others fs4 evs"
    unfolding fs3_def fs4_def by (rule mapOrchestrator_SomeD)
  have s3: "calledByItself fs3 k = calledByItself fs k"
    by (simp add: calledByItself_def fs3_def mapActivitiesToOrchestrator_frame
        mapSubOrchestrators_frame mapCallingFunctions_frame)
  have s4: "calledByItself fs4 k =
      map_option (\<lambda>v. if name orch = k \<and> continueAsNewRegex rx (code orch) \<noteq> None
                        then Some True else v) (calledByItself fs k)"
    unfolding s3 [symmetric]
    by (auto simp: calledByItself_def fs4_def map_of_updateFunction option.map_comp comp_def
        option.map_ident)
  have s5: "calledByItself fs' k = calledByItself fs4 k"
    by (simp add: calledByItself_def fs' mapEventProducers_frame)
  show ?thesis unfolding s5 s4 ..
qed

lemma mapOrchestrators_itself:
  "mapOrchestrators rx others orchs acts fs os = Some fs' \<Longrightarrow>
   calledByItself fs' k =
   map_option (\<lambda>v. if list_ex (\<lambda>orch. name orch = k \<and> continueAsNewRegex rx (code orch) \<noteq> None) os
                     then Some True else v)
     (calledByItself fs k)"
proof (induction os arbitrary: fs)
  case Nil
  then show ?case by (simp add: option.map_ident)
next
  case (Cons orch os)
  from Cons.prems obtain fs1 where one: "mapOrchestrator rx others orchs acts fs orch = Some fs1"
    and rest: "mapOrchestrators rx others orchs acts fs1 os = Some fs'"
    by (auto split: option.splits)
  show ?case
    unfolding Cons.IH [OF rest] mapOrchestrator_itself [OF one]
    by (auto simp: option.map_comp comp_def intro!: option.map_cong)
qed

subsection \<open>isCalledBy\<close>

lemma updateFunction_keeps_caller:
  "(\<And>x. c \<in> set (isCalledBy x) \<Longrightarrow> c \<in> set (isCalledBy (f x))) \<Longrightarrow> isCalledByIn fs a c
   \<Longrightarrow> isCalledByIn (updateFunction n f fs) a c"
  by (auto simp: isCalledByIn_def map_of_updateFunction split: option.splits)

lemma pushIsCalledBy_keeps_caller:
  "isCalledByIn fs a c \<Longrightarrow> isCalledByIn (pushIsCalledBy t d fs) a c"
  unfolding pushIsCalledBy_def by (rule updateFunction_keeps_caller) auto

lemma pushIsCalledBy_adds_caller:
  "a \<in> set (map fst fs) \<Longrightarrow> isCalledByIn (pushIsCalledBy a c fs) a c"
  by (auto simp: isCalledByIn_def pushIsCalledBy_def map_of_updateFunction map_of_eq_None_iff
      split: option.splits)

lemma pushIsSignalledBy_keeps_caller:
  "isCalledByIn fs a c \<Longrightarrow> isCalledByIn (pushIsSignalledBy t d fs) a c"
  unfolding pushIsSignalledBy_def by (rule updateFunction_keeps_caller) auto

lemma mapCallingFunctions_keeps_caller:
  "isCalledByIn fs a c \<Longrightarrow> isCalledByIn (mapCallingFunctions regex t fs funcs) a c"
  by (induction funcs arbitrary: fs) (simp_all add: pushIsCalledBy_keeps_caller)

lemma mapSubOrchestrators_keeps_caller:
  "isCalledByIn fs a c \<Longrightarrow> isCalledByIn (mapSubOrchestrators rx orch fs subs) a c"
  by (induction subs arbitrary: fs) (simp_all add: pushIsCalledBy_keeps_caller)

lemma mapActivitiesToOrchestrator_keeps_caller:
  "isCalledByIn fs a c \<Longrightarrow> isCalledByIn (mapActivitiesToOrchestrator rx fs orch acts) a c"
  by (induction acts arbitrary: fs) (simp_all add: pushIsCalledBy_keeps_caller)

lemma mapSendingFunctions_keeps_caller:
  "isCalledByIn fs a c \<Longrightarrow> isCalledByIn (mapSendingFunctions regex t ev fs funcs) a c"
  by (induction funcs arbitrary: fs) (simp_all add: pushIsSignalledBy_keeps_caller)

lemma mapEventProducers_keeps_caller:
  "isCalledByIn fs a c \<Longrightarrow> isCalledByIn (mapEventProducers rx t others fs evs) a c"
  by (induction evs arbitrary: fs) (simp_all add: mapSendingFunctions_keeps_caller)

lemma mapEntities_keeps_caller:
  "isCalledByIn fs a c \<Longrightarrow> isCalledByIn (mapEntities rx others fs ents) a c"
  by (induction ents arbitrary: fs) (simp_all add: mapCallingFunctions_keeps_caller)

lemma enrichFromCode_keeps_caller:
  "isCalledByIn fs a c \<Longrightarrow> isCalledByIn (enrichFromCode e fs funcs) a c"
  by (induction funcs arbitrary: fs) (simp_all add: updateFunction_keeps_caller)

lemma addFilePaths_keeps_caller:
  "isCalledByIn fs a c \<Longrightarrow> isCalledByIn (addFilePaths fs funcs) a c"
  by (induction funcs arbitrary: fs) (simp_all add: updateFunction_keeps_caller)

lemma map_fst_pushIsCalledBy [simp]: "map fst (pushIsCalledBy t c fs) = map fst fs"
  by (simp add: pushIsCalledBy_def)

lemma keys_pushIsCalledBy [simp]: "fst ` set (pushIsCalledBy t c fs) = fst ` set fs"
proof -
  have "set (map fst (pushIsCalledBy t c fs)) = set (map fst fs)"
    by (simp only: map_fst_pushIsCalledBy)
  then show ?thesis by (simp only: set_map)
qed

lemma map_fst_pushIsSignalledBy [simp]: "map fst (pushIsSignalledBy t c fs) = map fst fs"
  by (simp add: pushIsSignalledBy_def)

lemma map_fst_mapCallingFunctions [simp]:
  "map fst (mapCallingFunctions regex t fs funcs) = map fst fs"
  by (induction funcs arbitrary: fs) simp_all

lemma map_fst_mapSubOrchestrators [simp]:
  "map fst (mapSubOrchestrators rx orch fs subs) = map fst fs"
  by (induction subs arbitrary: fs) simp_all

lemma map_fst_mapActivitiesToOrchestrator [simp]:
  "map fst (mapActivitiesToOrchestrator rx fs orch acts) = map fst fs"
  by (induction acts arbitrary: fs) simp_all

lemma map_fst_mapSendingFunctions [simp]:
  "map fst (mapSendingFunctions regex t ev fs funcs) = map fst fs"
  by (induction funcs arbitrary: fs) simp_all

lemma map_fst_mapEventProducers [simp]:
  "map fst (mapEventProducers rx t others fs evs) = map fst fs"
  by (induction evs arbitrary: fs) simp_all

lemma mapActivitiesToOrchestrator_adds_caller:
  "a \<in> set acts \<Longrightarrow> a \<in> set (map fst fs) \<Longrightarrow> getCallActivityRegex rx a (code orch) \<noteq> None
   \<Longrightarrow> isCalledByIn (mapActivitiesToOrchestrator rx fs orch acts) a (name orch)"
proof (induction acts arbitrary: fs)
  case Nil
  then show ?case by simp
next
  case (Cons b acts)
  show ?case
  proof (cases "a = b")
    case True
    with Cons.prems have "isCalledByIn (pushIsCalledBy b (name orch) fs) a (name orch)"
      by (simp add: pushIsCalledBy_adds_caller)
    with True Cons.prems show ?thesis
      by (simp add: mapActivitiesToOrchestrator_keeps_caller)
  next
    case False
    with Cons.prems have "a \<in> set acts" by simp
    moreover from Cons.prems(2)
    have "a \<in> set (map fst (if getCallActivityRegex rx b (code orch) \<noteq> None
        then pushIsCalledBy b (name orch) fs else fs))"
      by simp
    ultimately have "isCalledByIn (mapActivitiesToOrchestrator rx
        (if getCallActivityRegex rx b (code orch) \<noteq> None
         then pushIsCalledBy b (name orch) fs else fs) orch acts) a (name orch)"
      using Cons.prems(3) by (rule Cons.IH)
    then show ?thesis by simp
  qed
qed

lemma map_fst_mapOrchestrator:
  "mapOrchestrator rx others orchs acts fs orch = Some fs' \<Longrightarrow> map fst fs' = map fst fs"
  by (erule mapOrchestrator_SomeD) simp

lemma map_fst_mapOrchestrators:
  "mapOrchestrators rx others orchs acts fs os = Some fs' \<Longrightarrow> map fst fs' = map fst fs"
proof (induction os arbitrary: fs)
  case Nil
  then show ?case by simp
next
  case (Cons orch os)
  from Cons.prems obtain fs1 where one: "mapOrchestrator rx others orchs acts fs orch = Some fs1"
    and rest: "mapOrchestrators rx others orchs acts fs1 os = Some fs'"
    by (auto split: option.splits)
  from Cons.IH [OF rest] map_fst_mapOrchestrator [OF one] show ?case by simp
qed

lemma mapOrchestrator_keeps_caller:
  "mapOrchestrator rx others orchs acts fs orch = Some fs' \<Longrightarrow> isCalledByIn fs a c
   \<Longrightarrow> isCalledByIn fs' a c"
  by (erule mapOrchestrator_SomeD)
     (auto intro!: mapEventProducers_keeps_caller updateFunction_keeps_caller
        mapActivitiesToOrchestrator_keeps_caller mapSubOrchestrators_keeps_caller
        mapCallingFunctions_keeps_caller)

lemma mapOrchestrators_keeps_caller:
  "mapOrchestrators rx others orchs acts fs os = Some fs' \<Longrightarrow> isCalledByIn fs a c
   \<Longrightarrow> isCalledByIn fs' a c"
proof (induction os arbitrary: fs)
  case Nil
  then show ?case by simp
next
  case (Cons orch os)
  from Cons.prems(1) obtain fs1 where one: "mapOrchestrator rx others orchs acts fs orch = Some fs1"
    and rest: "mapOrchestrators rx others orchs acts fs1 os = Some fs'"
    by (auto split: option.splits)
  from mapOrchestrator_keeps_caller [OF one Cons.prems(2)] have "isCalledByIn fs1 a c" .
  with rest show ?case by (rule Cons.IH)
qed

lemma mapOrchestrator_adds_caller:
  assumes "mapOrchestrator rx others orchs acts fs orch = Some fs'"
    and "a \<in> set acts" and "a \<in> set (map fst fs)"
    and "getCallActivityRegex rx a (code orch) \<noteq> None"
  shows "isCalledByIn fs' a (name orch)"
proof -
  define fs2 where "fs2 = mapSubOrchestrators rx orch
        (mapCallingFunctions (getStartNewOrchestrationRegex rx (name orch)) (name orch) fs others)
        orchs"
  define fs3 where "fs3 = mapActivitiesToOrchestrator rx fs2 orch acts"
  define fs4 where "fs4 = (if continueAsNewRegex rx (code orch) \<noteq> None
      then updateFunction (name orch) (\<lambda>f. f\<lparr>isCalledByItself := Some True\<rparr>) fs3 else fs3)"
  from assms(1) obtain evs where evs: "getEventNames rx (code orch) = Some evs"
    and fs': "fs' = mapEventProducers rx (name orch) others fs4 evs"
    unfolding fs2_def fs3_def fs4_def by (rule mapOrchestrator_SomeD)
  from assms(3) have "a \<in> set (map fst fs2)" by (simp add: fs2_def)
  from mapActivitiesToOrchestrator_adds_caller [OF assms(2) this assms(4)]
  have "isCalledByIn fs3 a (name orch)" by (simp add: fs3_def)
  then have "isCalledByIn fs4 a (name orch)"
    by (simp add: fs4_def updateFunction_keeps_caller)
  then show ?thesis
    by (simp add: fs' mapEventProducers_keeps_caller)
qed

lemma mapOrchestrators_adds_caller:
  "mapOrchestrators rx others orchs acts fs os = Some fs' \<Longrightarrow> orch \<in> set os \<Longrightarrow> a \<in> set acts
   \<Longrightarrow> a \<in> set (map fst fs) \<Longrightarrow> getCallActivityRegex rx a (code orch) \<noteq> None
   \<Longrightarrow> isCalledByIn fs' a (name orch)"
proof (induction os arbitrary: fs)
  case Nil
  then show ?case by simp
next
  case (Cons o1 os)
  from Cons.prems(1) obtain fs1 where one: "mapOrchestrator rx others orchs acts fs o1 = Some fs1"
    and rest: "mapOrchestrators rx others orchs acts fs1 os = Some fs'"
    by (auto split: option.splits)
  have keys: "map fst fs1 = map fst fs" by (rule map_fst_mapOrchestrator [OF one])
  show ?case
  proof (cases "orch = o1")
    case True
    from mapOrchestrator_adds_caller [OF one Cons.prems(3,4)] Cons.prems(5) True
    have "isCalledByIn fs1 a (name orch)" by simp
    with rest show ?thesis by (rule mapOrchestrators_keeps_caller)
  next
    case False
    with Cons.prems(2) have "orch \<in> set os" by simp
    from Cons.IH [OF rest this Cons.prems(3) _ Cons.prems(5)] Cons.prems(4) keys
    show ?thesis by simp
  qed
qed

subsection \<open>The mapping returns\<close>

lemma mapOrchestrator_returns:
  "advances (waitForExternalEventRegex rx) (code orch) \<Longrightarrow>
   \<exists>fs'. mapOrchestrator rx others orchs acts fs orch = Some fs'"
  by (simp add: mapOrchestrator_def Let_def getEventNames_terminates)

lemma mapOrchestrators_returns:
  "list_all (\<lambda>orch. advances (waitForExternalEventRegex rx) (code orch)) os \<Longrightarrow>
   \<exists>fs'. mapOrchestrators rx others orchs acts fs os = Some fs'"
proof (induction os arbitrary: fs)
  case Nil
  show ?case by simp
next
  case (Cons orch os)
  from Cons.prems have "advances (waitForExternalEventRegex rx) (code orch)" by simp
  from mapOrchestrator_returns [OF this] obtain fs1
    where "mapOrchestrator rx others orchs acts fs orch = Some fs1" by blast
  moreover from Cons.prems have "list_all (\<lambda>orch. advances (waitForExternalEventRegex rx) (code orch)) os"
    by simp
  from Cons.IH [OF this] obtain fs' where "mapOrchestrators rx others orchs acts fs1 os = Some fs'"
    by blast
  ultimately show ?case by simp
qed

lemma getFunctionsAndTheirCodesAsync_names:
  "map name (getFunctionsAndTheirCodesAsync e rx names kind pf hf) =
   filter (\<lambda>n. findFunctionFile e rx kind pf hf n \<noteq> None) names"
  unfolding getFunctionsAndTheirCodesAsync_def
  by (induction names) (auto simp: Let_def split: option.splits)

lemma getFunctionsAndTheirCodesAsync_distinct:
  "distinct names \<Longrightarrow> distinct (map name (getFunctionsAndTheirCodesAsync e rx names kind pf hf))"
  by (simp add: getFunctionsAndTheirCodesAsync_names)

lemma orchestrators_distinct:
  "distinct (map fst fs) \<Longrightarrow> distinct (map name (orchestrators e rx fs pf hf))"
  unfolding orchestrators_def orchestratorNames_def
  by (rule getFunctionsAndTheirCodesAsync_distinct) simp

lemma orchestrators_names:
  "orch \<in> set (orchestrators e rx fs pf hf) \<Longrightarrow> name orch \<in> set (map fst fs)"
proof -
  assume "orch \<in> set (orchestrators e rx fs pf hf)"
  then have "name orch \<in> set (map name (orchestrators e rx fs pf hf))" by simp
  then have "name orch \<in> set (orchestratorNames fs)"
    unfolding orchestrators_def getFunctionsAndTheirCodesAsync_names by simp
  then show ?thesis by (simp add: orchestratorNames_def)
qed

lemma filter_name_distinct:
  "distinct (map name os) \<Longrightarrow> orch \<in> set os \<Longrightarrow> filter (\<lambda>x. name x = name orch) os = [orch]"
proof (induction os)
  case Nil
  then show ?case by simp
next
  case (Cons o1 os)
  show ?case
  proof (cases "orch = o1")
    case True
    from Cons.prems(1) have "\<forall>x \<in> set os. name x \<noteq> name o1" by (force simp: image_iff)
    then have "filter (\<lambda>x. name x = name o1) os = []" by (simp add: filter_empty_conv)
    with True show ?thesis by simp
  next
    case False
    with Cons.prems have "orch \<in> set os" "distinct (map name os)" "name o1 \<noteq> name orch"
      by auto
    with Cons.IH show ?thesis by simp
  qed
qed

text \<open>
  When every function has a binding array and the wait-external-event pattern advances
  on the code of every orchestrator, the mapping returns a map.
\<close>

lemma mapOrchestratorsAndActivitiesAsync_returns:
  assumes "\<not> list_ex (\<lambda>(n, f). bindings f = None) fs"
    and "list_all (\<lambda>orch. advances (waitForExternalEventRegex rx) (code orch))
           (orchestrators e rx fs pf hf)"
  obtains fs1 where
    "mapOrchestrators rx (otherFunctions e rx fs pf hf) (orchestrators e rx fs pf hf)
       (activityNames fs) fs (orchestrators e rx fs pf hf) = Some fs1"
    and "mapOrchestratorsAndActivitiesAsync e rx fs pf hf =
      Some (Inr (addFilePaths
        (if projectKindOf e pf = DotNet
         then enrichFromCode e (mapEntities rx (otherFunctions e rx fs pf hf) fs1
                (entities e rx fs pf hf))
                (activities e rx fs pf hf @ otherFunctions e rx fs pf hf)
         else mapEntities rx (otherFunctions e rx fs pf hf) fs1 (entities e rx fs pf hf))
        (otherFunctions e rx fs pf hf @ orchestrators e rx fs pf hf @ activities e rx fs pf hf
           @ entities e rx fs pf hf)))"
proof -
  from mapOrchestrators_returns [OF assms(2)] obtain fs1 where
    one: "mapOrchestrators rx (otherFunctions e rx fs pf hf) (orchestrators e rx fs pf hf)
       (activityNames fs) fs (orchestrators e rx fs pf hf) = Some fs1"
    by blast
  with assms(1) have "mapOrchestratorsAndActivitiesAsync e rx fs pf hf =
      Some (Inr (addFilePaths
        (if projectKindOf e pf = DotNet
         then enrichFromCode e (mapEntities rx (otherFunctions e rx fs pf hf) fs1
                (entities e rx fs pf hf))
                (activities e rx fs pf hf @ otherFunctions e rx fs pf hf)
         else mapEntities rx (otherFunctions e rx fs pf hf) fs1 (entities e rx fs pf hf))
        (otherFunctions e rx fs pf hf @ orchestrators e rx fs pf hf @ activities e rx fs pf hf
           @ entities e rx fs pf hf)))"
    unfolding mapOrchestratorsAndActivitiesAsync_def Let_def by simp
  with one that show ?thesis by blast
qed

lemma mappedFunctions_eq:
  "mapOrchestratorsAndActivitiesAsync e rx fs pf hf = Some (Inr fs')
   \<Longrightarrow> mappedFunctions e rx fs pf hf = fs'"
  by (simp add: mappedFunctions_def)

text \<open>
  The fields \<open>isCalledByItself\<close> and \<open>isSignalledBy\<close> of every function in the map
  returned, in terms of the map given.
\<close>

lemma mapped_fields:
  assumes "\<not> list_ex (\<lambda>(n, f). bindings f = None) fs"
    and "list_all (\<lambda>orch. advances (waitForExternalEventRegex rx) (code orch))
           (orchestrators e rx fs pf hf)"
  shows "\<exists>fs'. mapOrchestratorsAndActivitiesAsync e rx fs pf hf = Some (Inr fs')
     \<and> (\<forall>k. calledByItself fs' k =
           map_option (\<lambda>v. if list_ex (\<lambda>orch. name orch = k
                                   \<and> continueAsNewRegex rx (code orch) \<noteq> None)
                                (orchestrators e rx fs pf hf)
                             then Some True else v)
             (calledByItself fs k))
     \<and> (\<forall>k. signalledBy fs' k =
           map_option (\<lambda>l. l @ concat (map (signalsFoundBy rx (otherFunctions e rx fs pf hf))
                                   (filter (\<lambda>orch. name orch = k)
                                      (orchestrators e rx fs pf hf))))
             (signalledBy fs k))"
proof -
  from assms obtain fs1 where
    one: "mapOrchestrators rx (otherFunctions e rx fs pf hf) (orchestrators e rx fs pf hf)
       (activityNames fs) fs (orchestrators e rx fs pf hf) = Some fs1"
    and res: "mapOrchestratorsAndActivitiesAsync e rx fs pf hf =
      Some (Inr (addFilePaths
        (if projectKindOf e pf = DotNet
         then enrichFromCode e (mapEntities rx (otherFunctions e rx fs pf hf) fs1
                (entities e rx fs pf hf))
                (activities e rx fs pf hf @ otherFunctions e rx fs pf hf)
         else mapEntities rx (otherFunctions e rx fs pf hf) fs1 (entities e rx fs pf hf))
        (otherFunctions e rx fs pf hf @ orchestrators e rx fs pf hf @ activities e rx fs pf hf
           @ entities e rx fs pf hf)))"
    by (rule mapOrchestratorsAndActivitiesAsync_returns)
  let ?fs' = "addFilePaths
        (if projectKindOf e pf = DotNet
         then enrichFromCode e (mapEntities rx (otherFunctions e rx fs pf hf) fs1
                (entities e rx fs pf hf))
                (activities e rx fs pf hf @ otherFunctions e rx fs pf hf)
         else mapEntities rx (otherFunctions e rx fs pf hf) fs1 (entities e rx fs pf hf))
        (otherFunctions e rx fs pf hf @ orchestrators e rx fs pf hf @ activities e rx fs pf hf
           @ entities e rx fs pf hf)"
  have "calledByItself ?fs' k = calledByItself fs1 k" for k
    by (simp add: calledByItself_def addFilePaths_frame enrichFromCode_frame mapEntities_frame)
  then have itself: "calledByItself ?fs' k =
           map_option (\<lambda>v. if list_ex (\<lambda>orch. name orch = k
                                   \<and> continueAsNewRegex rx (code orch) \<noteq> None)
                                (orchestrators e rx fs pf hf)
                             then Some True else v)
             (calledByItself fs k)" for k
    by (simp only: mapOrchestrators_itself [OF one])
  have "signalledBy ?fs' k = signalledBy fs1 k" for k
    by (simp add: signalledBy_def addFilePaths_frame enrichFromCode_frame mapEntities_frame)
  then have signals: "signalledBy ?fs' k =
           map_option (\<lambda>l. l @ concat (map (signalsFoundBy rx (otherFunctions e rx fs pf hf))
                                   (filter (\<lambda>orch. name orch = k)
                                      (orchestrators e rx fs pf hf))))
             (signalledBy fs k)" for k
    by (simp only: mapOrchestrators_signals [OF one])
  from res itself signals show ?thesis by blast
qed

section \<open>The sample project\<close>

lemma sample_orchestrators:
  "orchestrators sampleEnv sampleRegexes sampleFunctions ''p'' ''p'' =
     [\<lparr>name = ''OrchA'', code = ''call:ActB;wait:Go;wait:No;'', codeFilePath = ''p/OrchA/index.js'',
       codePos = 0, codeLineNr = 1\<rparr>,
      \<lparr>name = ''Loop'', code = ''ContinueAsNew(x)'', codeFilePath = ''p/Loop/index.js'',
       codePos = 0, codeLineNr = 1\<rparr>]"
  by (simp add: orchestrators_def orchestratorNames_def getFunctionsAndTheirCodesAsync_def
      findFunctionFile_def projectKindOf_def sampleEnv_def sampleFunctions_def seeded_def
      bindingsOf_def sampleFiles_def scriptFilePattern_def)

lemma sample_otherFunctions:
  "otherFunctions sampleEnv sampleRegexes sampleFunctions ''p'' ''p'' =
     [\<lparr>name = ''Start'', code = ''start:OrchA;raise:Go;'', codeFilePath = ''p/Start/index.js'',
       codePos = 0, codeLineNr = 1\<rparr>,
      \<lparr>name = ''Stop'', code = ''raise:No;'', codeFilePath = ''p/Stop/index.js'',
       codePos = 0, codeLineNr = 1\<rparr>]"
  by (simp add: otherFunctions_def otherFunctionNames_def getFunctionsAndTheirCodesAsync_def
      findFunctionFile_def projectKindOf_def sampleEnv_def sampleFunctions_def seeded_def
      bindingsOf_def sampleFiles_def scriptFilePattern_def)

lemma sample_advances_OrchA: "advances sampleWait ''call:ActB;wait:Go;wait:No;''"
  by (simp add: advances_def sampleWait_def)

lemma sample_advances_Loop: "advances sampleWait ''ContinueAsNew(x)''"
  by (simp add: advances_def sampleWait_def)

lemma sample_matches:
  "matchesFrom sampleWait ''call:ActB;wait:Go;wait:No;'' (Suc (length ''call:ActB;wait:Go;wait:No;'')) 0
     = [''Go'', ''No'']"
  by (simp add: sampleWait_def)

lemma sample_all_advance:
  "list_all (\<lambda>orch. advances (waitForExternalEventRegex sampleRegexes) (code orch))
     (orchestrators sampleEnv sampleRegexes sampleFunctions ''p'' ''p'')"
  by (simp add: sample_orchestrators) (simp add: sampleRegexes_def sample_advances_OrchA
      sample_advances_Loop)

lemma sample_OrchA:
  "\<lparr>name = ''OrchA'', code = ''call:ActB;wait:Go;wait:No;'', codeFilePath = ''p/OrchA/index.js'',
       codePos = 0, codeLineNr = 1\<rparr>
   \<in> set (orchestrators sampleEnv sampleRegexes sampleFunctions ''p'' ''p'')"
  by (simp add: sample_orchestrators)

lemma sample_Loop:
  "\<lparr>name = ''Loop'', code = ''ContinueAsNew(x)'', codeFilePath = ''p/Loop/index.js'',
       codePos = 0, codeLineNr = 1\<rparr>
   \<in> set (orchestrators sampleEnv sampleRegexes sampleFunctions ''p'' ''p'')"
  by (simp add: sample_orchestrators)

lemma sample_readFunctionJsons:
  "readFunctionJsons sampleEnv ''p'' []
     [''OrchA'', ''Loop'', ''ActB'', ''Start'', ''Stop'', ''host.json'']
   = (Inr sampleFunctions, [])"
  by (simp add: sampleEnv_def sampleDescriptors_def setFunction_def sampleFunctions_def seeded_def)

lemma sample_readProxiesJson:
  "readProxiesJson sampleEnv ''p'' =
     (Inr [(''foo'', \<lparr>proxyFields = [], proxyFilePath = Some ''p/proxies.json'',
                     warningNotAddedToCsProjFile = None, proxyPos = Some 1,
                     proxyLineNr = Some 1\<rparr>),
           (''a/b'', \<lparr>proxyFields = [], proxyFilePath = Some ''p/proxies.json'',
                     warningNotAddedToCsProjFile = None, proxyPos = None,
                     proxyLineNr = None\<rparr>)], [])"
  by (simp add: readProxiesJson_def notAddedToCsProjFile_def sampleEnv_def sampleProxies_def
      sampleProxiesText_def proxyNamePattern_def Let_def)

lemma sample_traversal:
  "traverseFunctionProject sampleEnv sampleRegexes ''p'' =
     Some (Inr \<lparr>functions' = mappedFunctions sampleEnv sampleRegexes sampleFunctions ''p'' ''p'',
                proxies = returnedProxies sampleEnv ''p'', tempFolders = [],
                projectFolder = ''p''\<rparr>,
           [FoundHostJson ''p/host.json''])"
proof -
  from sample_wellformed sample_all_advance obtain fs1 where
    "mapOrchestratorsAndActivitiesAsync sampleEnv sampleRegexes sampleFunctions ''p'' ''p''
       = Some (Inr (addFilePaths
        (if projectKindOf sampleEnv ''p'' = DotNet
         then enrichFromCode sampleEnv
                (mapEntities sampleRegexes
                   (otherFunctions sampleEnv sampleRegexes sampleFunctions ''p'' ''p'') fs1
                   (entities sampleEnv sampleRegexes sampleFunctions ''p'' ''p''))
                (activities sampleEnv sampleRegexes sampleFunctions ''p'' ''p''
                   @ otherFunctions sampleEnv sampleRegexes sampleFunctions ''p'' ''p'')
         else mapEntities sampleRegexes
                (otherFunctions sampleEnv sampleRegexes sampleFunctions ''p'' ''p'') fs1
                (entities sampleEnv sampleRegexes sampleFunctions ''p'' ''p''))
        (otherFunctions sampleEnv sampleRegexes sampleFunctions ''p'' ''p''
           @ orchestrators sampleEnv sampleRegexes sampleFunctions ''p'' ''p''
           @ activities sampleEnv sampleRegexes sampleFunctions ''p'' ''p''
           @ entities sampleEnv sampleRegexes sampleFunctions ''p'' ''p'')))"
    by (rule mapOrchestratorsAndActivitiesAsync_returns)
  then obtain fs' where m: "mapOrchestratorsAndActivitiesAsync sampleEnv sampleRegexes
      sampleFunctions ''p'' ''p'' = Some (Inr fs')"
    by blast
  have c: "cloneIfGitRepo sampleEnv ''p'' = (Inr ([], ''p''), [])"
    by (simp add: cloneIfGitRepo_def startsWithHttp_def)
  have h: "findFileRecursivelyAsync sampleEnv ''p'' ''host.json'' False None =
      Some \<lparr>matchFilePath = ''p/host.json'', matchCode = [], matchPos = None, matchLength = None\<rparr>"
    by (simp add: sampleEnv_def)
  have d: "pathDirname sampleEnv ''p/host.json'' = ''p''" by (simp add: sampleEnv_def)
  have p: "publishIfDotNet sampleEnv ''p'' = (Inr ([], ''p''), [])"
    by (simp add: publishIfDotNet_def sampleEnv_def)
  have i: "isDotNetIsolatedProjectAsync sampleEnv ''p'' = False"
    "isJavaProjectAsync sampleEnv ''p'' = False"
    "readdir sampleEnv ''p'' = Some [''OrchA'', ''Loop'', ''ActB'', ''Start'', ''Stop'', ''host.json'']"
    by (simp_all add: sampleEnv_def)
  have cf: "collectFunctions sampleEnv sampleRegexes ''p'' =
      Some (Inr (fs', [], ''p''), [FoundHostJson ''p/host.json''])"
    unfolding collectFunctions_def c
    by (simp add: h d p i sample_readFunctionJsons m del: readFunctionJsons.simps)
  have rp: "readProxiesJson sampleEnv ''p'' = (Inr (returnedProxies sampleEnv ''p''), [])"
    by (simp add: returnedProxies_def sample_readProxiesJson)
  show ?thesis
    by (simp add: traverseFunctionProject_def cf rp mappedFunctions_eq [OF m])
qed

lemma sample_traversedFunctions:
  "traversedFunctions sampleEnv sampleRegexes ''p'' =
     mappedFunctions sampleEnv sampleRegexes sampleFunctions ''p'' ''p''"
  by (simp add: traversedFunctions_def sample_traversal)

lemma sample_empty_project:
  "collectFunctions sampleEnv sampleRegexes ''m'' =
     Some (Inr ([], [], ''m''), [FoundHostJson ''m/host.json''])"
proof -
  have m: "mapOrchestratorsAndActivitiesAsync sampleEnv sampleRegexes [] ''m'' ''m'' = Some (Inr [])"
    by (simp add: mapOrchestratorsAndActivitiesAsync_def orchestrators_def activities_def
        entities_def otherFunctions_def orchestratorNames_def activityNames_def entityNames_def
        otherFunctionNames_def getFunctionsAndTheirCodesAsync_def projectKindOf_def sampleEnv_def)
  have c: "cloneIfGitRepo sampleEnv ''m'' = (Inr ([], ''m''), [])"
    by (simp add: cloneIfGitRepo_def startsWithHttp_def)
  have h: "findFileRecursivelyAsync sampleEnv ''m'' ''host.json'' False None =
      Some \<lparr>matchFilePath = ''m/host.json'', matchCode = [], matchPos = None, matchLength = None\<rparr>"
    by (simp add: sampleEnv_def)
  have d: "pathDirname sampleEnv ''m/host.json'' = ''m''" by (simp add: sampleEnv_def)
  have p: "publishIfDotNet sampleEnv ''m'' = (Inr ([], ''m''), [])"
    by (simp add: publishIfDotNet_def sampleEnv_def)
  have i: "isDotNetIsolatedProjectAsync sampleEnv ''m'' = False"
    "isJavaProjectAsync sampleEnv ''m'' = False" "readdir sampleEnv ''m'' = Some []"
    by (simp_all add: sampleEnv_def)
  show ?thesis
    unfolding collectFunctions_def c by (simp add: h d p i m)
qed

section \<open>GraphMapper\<close>

text \<open>
  C3, as stated, fails in its second half: the orchestrator OrchA of the sample project
  has no continue-as-new call, and in the result its \<open>isCalledByItself\<close> is not
  \<open>false\<close> but absent, as it was when the function was read from its function.json.
\<close>

theorem isCalledByItself_stays_unset_without_continue_as_new:
  "continueAsNewRegex sampleRegexes ''call:ActB;wait:Go;wait:No;'' = None
   \<and> mapOrchestratorsAndActivitiesAsync sampleEnv sampleRegexes sampleFunctions ''p'' ''p'' \<noteq> None
   \<and> calledByItself (mappedFunctions sampleEnv sampleRegexes sampleFunctions ''p'' ''p'') ''OrchA''
       = Some None
   \<and> calledByItself (mappedFunctions sampleEnv sampleRegexes sampleFunctions ''p'' ''p'') ''OrchA''
       \<noteq> Some (Some False)"
proof -
  have c: "continueAsNewRegex sampleRegexes ''call:ActB;wait:Go;wait:No;'' = None"
    by (simp add: sampleRegexes_def)
  have i: "calledByItself sampleFunctions ''OrchA'' = Some None"
    by (simp add: calledByItself_def sampleFunctions_def seeded_def)
  have n: "\<not> list_ex (\<lambda>orch. name orch = ''OrchA''
                \<and> continueAsNewRegex sampleRegexes (code orch) \<noteq> None)
             (orchestrators sampleEnv sampleRegexes sampleFunctions ''p'' ''p'')"
    unfolding sample_orchestrators by (simp add: c)
  from mapped_fields [OF sample_wellformed sample_all_advance]
  obtain fs' where r: "mapOrchestratorsAndActivitiesAsync sampleEnv sampleRegexes sampleFunctions
      ''p'' ''p'' = Some (Inr fs')"
    and "calledByItself fs' ''OrchA'' =
           map_option (\<lambda>v. if list_ex (\<lambda>orch. name orch = ''OrchA''
                                   \<and> continueAsNewRegex sampleRegexes (code orch) \<noteq> None)
                                (orchestrators sampleEnv sampleRegexes sampleFunctions ''p'' ''p'')
                             then Some True else v)
             (calledByItself sampleFunctions ''OrchA'')"
    by blast
  with n i have v: "calledByItself fs' ''OrchA'' = Some None" by simp
  from r v show ?thesis by (simp add: mappedFunctions_eq [OF r] c)
qed

text \<open>
  C3, amended: the mapping returns, and for every orchestrator whose code body was
  extracted \<open>isCalledByItself\<close> is \<open>true\<close> in the result if the continue-as-new
  pattern matches in the body; if it does not match, the field is what it was in the
  map given to the mapping (absent for a function read from function.json), and is
  never assigned \<open>false\<close>.
\<close>

theorem isCalledByItself_set_only_by_continue_as_new:
  assumes "\<not> list_ex (\<lambda>(n, f). bindings f = None) fs"
    and "list_all (\<lambda>orch. advances (waitForExternalEventRegex rx) (code orch))
           (orchestrators e rx fs pf hf)"
    and "distinct (map fst fs)"
    and "orch \<in> set (orchestrators e rx fs pf hf)"
  shows "\<exists>fs'. mapOrchestratorsAndActivitiesAsync e rx fs pf hf = Some (Inr fs')
     \<and> calledByItself fs' (name orch) =
         (if continueAsNewRegex rx (code orch) \<noteq> None then Some (Some True)
          else calledByItself fs (name orch))"
proof -
  from mapped_fields [OF assms(1,2)]
  obtain fs' where r: "mapOrchestratorsAndActivitiesAsync e rx fs pf hf = Some (Inr fs')"
    and f: "calledByItself fs' (name orch) =
           map_option (\<lambda>v. if list_ex (\<lambda>x. name x = name orch
                                   \<and> continueAsNewRegex rx (code x) \<noteq> None)
                                (orchestrators e rx fs pf hf)
                             then Some True else v)
             (calledByItself fs (name orch))"
    by blast
  from assms(4) have "name orch \<in> set (map fst fs)" by (rule orchestrators_names)
  then obtain v where v: "calledByItself fs (name orch) = Some v"
    by (cases "map_of fs (name orch)") (auto simp: calledByItself_def map_of_eq_None_iff)
  have "list_ex (\<lambda>x. name x = name orch \<and> continueAsNewRegex rx (code x) \<noteq> None)
              (orchestrators e rx fs pf hf)
          = list_ex (\<lambda>x. continueAsNewRegex rx (code x) \<noteq> None)
              (filter (\<lambda>x. name x = name orch) (orchestrators e rx fs pf hf))"
    by (auto simp: list_ex_iff)
  also have "\<dots> = (continueAsNewRegex rx (code orch) \<noteq> None)"
    by (simp add: filter_name_distinct [OF orchestrators_distinct [OF assms(3)] assms(4)])
  finally have ex: "list_ex (\<lambda>x. name x = name orch \<and> continueAsNewRegex rx (code x) \<noteq> None)
              (orchestrators e rx fs pf hf) = (continueAsNewRegex rx (code orch) \<noteq> None)" .
  have "calledByItself fs' (name orch) =
         (if continueAsNewRegex rx (code orch) \<noteq> None then Some (Some True)
          else calledByItself fs (name orch))"
    unfolding f ex v by simp
  with r show ?thesis by simp
qed

theorem isCalledByItself_set_only_by_continue_as_new_witness:
  "\<not> list_ex (\<lambda>(n, f). bindings f = None) sampleFunctions
   \<and> distinct (map fst sampleFunctions)
   \<and> continueAsNewRegex sampleRegexes ''ContinueAsNew(x)'' = Some 0
   \<and> calledByItself (mappedFunctions sampleEnv sampleRegexes sampleFunctions ''p'' ''p'') ''Loop''
       = Some (Some True)"
proof -
  have c: "continueAsNewRegex sampleRegexes ''ContinueAsNew(x)'' = Some 0"
    by (simp add: sampleRegexes_def)
  from isCalledByItself_set_only_by_continue_as_new
    [OF sample_wellformed sample_all_advance sample_distinct sample_Loop]
  obtain fs' where r: "mapOrchestratorsAndActivitiesAsync sampleEnv sampleRegexes sampleFunctions
      ''p'' ''p'' = Some (Inr fs')"
    and v: "calledByItself fs' ''Loop'' = Some (Some True)"
    using c by auto
  from v sample_wellformed sample_distinct c show ?thesis
    by (simp add: mappedFunctions_eq [OF r])
qed

text \<open>
  C4: the mapping returns, and for every orchestrator \<open>orch\<close> whose code body was
  extracted and every activity \<open>a\<close> of the map, if the call-activity pattern for \<open>a\<close>
  matches in the body of \<open>orch\<close>, the name of \<open>orch\<close> is in \<open>isCalledBy\<close> of \<open>a\<close> in
  the result. In the sample script-based project, the traversal returns ActB with OrchA
  in its \<open>isCalledBy\<close>.
\<close>

theorem activity_isCalledBy_contains_the_calling_orchestrator:
  assumes "\<not> list_ex (\<lambda>(n, f). bindings f = None) fs"
    and "list_all (\<lambda>orch. advances (waitForExternalEventRegex rx) (code orch))
           (orchestrators e rx fs pf hf)"
    and "orch \<in> set (orchestrators e rx fs pf hf)"
    and "a \<in> set (activityNames fs)"
    and "getCallActivityRegex rx a (code orch) \<noteq> None"
  shows "\<exists>fs'. mapOrchestratorsAndActivitiesAsync e rx fs pf hf = Some (Inr fs')
     \<and> isCalledByIn fs' a (name orch)"
proof -
  from assms(1,2) obtain fs1 where
    one: "mapOrchestrators rx (otherFunctions e rx fs pf hf) (orchestrators e rx fs pf hf)
       (activityNames fs) fs (orchestrators e rx fs pf hf) = Some fs1"
    and res: "mapOrchestratorsAndActivitiesAsync e rx fs pf hf =
      Some (Inr (addFilePaths
        (if projectKindOf e pf = DotNet
         then enrichFromCode e (mapEntities rx (otherFunctions e rx fs pf hf) fs1
                (entities e rx fs pf hf))
                (activities e rx fs pf hf @ otherFunctions e rx fs pf hf)
         else mapEntities rx (otherFunctions e rx fs pf hf) fs1 (entities e rx fs pf hf))
        (otherFunctions e rx fs pf hf @ orchestrators e rx fs pf hf @ activities e rx fs pf hf
           @ entities e rx fs pf hf)))"
    by (rule mapOrchestratorsAndActivitiesAsync_returns)
  from assms(4) have "a \<in> set (map fst fs)" by (simp add: activityNames_def)
  from mapOrchestrators_adds_caller [OF one assms(3,4) this assms(5)]
  have "isCalledByIn fs1 a (name orch)" .
  then have "isCalledByIn (addFilePaths
        (if projectKindOf e pf = DotNet
         then enrichFromCode e (mapEntities rx (otherFunctions e rx fs pf hf) fs1
                (entities e rx fs pf hf))
                (activities e rx fs pf hf @ otherFunctions e rx fs pf hf)
         else mapEntities rx (otherFunctions e rx fs pf hf) fs1 (entities e rx fs pf hf))
        (otherFunctions e rx fs pf hf @ orchestrators e rx fs pf hf @ activities e rx fs pf hf
           @ entities e rx fs pf hf)) a (name orch)"
    by (simp add: addFilePaths_keeps_caller enrichFromCode_keeps_caller mapEntities_keeps_caller)
  with res show ?thesis by simp
qed

theorem activity_isCalledBy_contains_the_calling_orchestrator_witness:
  "\<not> list_ex (\<lambda>(n, f). bindings f = None) sampleFunctions
   \<and> ''ActB'' \<in> set (activityNames sampleFunctions)
   \<and> getCallActivityRegex sampleRegexes ''ActB'' ''call:ActB;wait:Go;wait:No;'' = Some 0
   \<and> isCalledByIn (mappedFunctions sampleEnv sampleRegexes sampleFunctions ''p'' ''p'')
        ''ActB'' ''OrchA''
   \<and> isCalledByIn (traversedFunctions sampleEnv sampleRegexes ''p'') ''ActB'' ''OrchA''"
proof -
  have a: "''ActB'' \<in> set (activityNames sampleFunctions)"
    by (simp add: activityNames_def sampleFunctions_def seeded_def bindingsOf_def)
  have c: "getCallActivityRegex sampleRegexes ''ActB'' ''call:ActB;wait:Go;wait:No;'' = Some 0"
    by (simp add: sampleRegexes_def)
  have c': "getCallActivityRegex sampleRegexes ''ActB''
      (code \<lparr>name = ''OrchA'', code = ''call:ActB;wait:Go;wait:No;'',
         codeFilePath = ''p/OrchA/index.js'', codePos = 0, codeLineNr = 1\<rparr>) \<noteq> None"
    by (simp add: c)
  from activity_isCalledBy_contains_the_calling_orchestrator
    [OF sample_wellformed sample_all_advance sample_OrchA a c']
  obtain fs' where r: "mapOrchestratorsAndActivitiesAsync sampleEnv sampleRegexes sampleFunctions
      ''p'' ''p'' = Some (Inr fs')"
    and v: "isCalledByIn fs' ''ActB'' ''OrchA''"
    by auto
  from v sample_wellformed a c show ?thesis
    by (simp add: mappedFunctions_eq [OF r] sample_traversedFunctions)
qed

text \<open>
  C9: the mapping returns; \<open>getEventNames\<close> returns the capture of every match of
  the wait-external-event pattern in the orchestrator's body, in order; and the
  orchestrator's \<open>isSignalledBy\<close> in the result is what it was before, followed by the
  entry \<open>{name: F, signalName: E}\<close> for every such event name \<open>E\<close> and every other
  function \<open>F\<close> whose code matches the raise-event pattern for \<open>E\<close>. In the sample
  project the orchestrator awaits Go and No, Start raises Go and Stop raises No, and
  \<open>isSignalledBy\<close> has exactly the two entries that pair them.
\<close>

theorem isSignalledBy_pairs_every_awaited_event_with_its_raisers:
  assumes "\<not> list_ex (\<lambda>(n, f). bindings f = None) fs"
    and "list_all (\<lambda>orch. advances (waitForExternalEventRegex rx) (code orch))
           (orchestrators e rx fs pf hf)"
    and "distinct (map fst fs)"
    and "orch \<in> set (orchestrators e rx fs pf hf)"
  shows "\<exists>fs'. mapOrchestratorsAndActivitiesAsync e rx fs pf hf = Some (Inr fs')
     \<and> getEventNames rx (code orch) =
         Some (matchesFrom (waitForExternalEventRegex rx) (code orch)
                 (Suc (length (code orch))) 0)
     \<and> signalledBy fs' (name orch) =
         map_option (\<lambda>l. l @ signalsOf rx (otherFunctions e rx fs pf hf)
               (matchesFrom (waitForExternalEventRegex rx) (code orch)
                  (Suc (length (code orch))) 0))
           (signalledBy fs (name orch))"
proof -
  from mapped_fields [OF assms(1,2)]
  obtain fs' where r: "mapOrchestratorsAndActivitiesAsync e rx fs pf hf = Some (Inr fs')"
    and f: "signalledBy fs' (name orch) =
           map_option (\<lambda>l. l @ concat (map (signalsFoundBy rx (otherFunctions e rx fs pf hf))
                                   (filter (\<lambda>x. name x = name orch)
                                      (orchestrators e rx fs pf hf))))
             (signalledBy fs (name orch))"
    by blast
  from assms(2,4) have adv: "advances (waitForExternalEventRegex rx) (code orch)"
    by (simp add: list_all_iff)
  note evs = getEventNames_terminates [OF adv]
  have "signalledBy fs' (name orch) =
         map_option (\<lambda>l. l @ signalsOf rx (otherFunctions e rx fs pf hf)
               (matchesFrom (waitForExternalEventRegex rx) (code orch)
                  (Suc (length (code orch))) 0))
           (signalledBy fs (name orch))"
    unfolding f filter_name_distinct [OF orchestrators_distinct [OF assms(3)] assms(4)]
    by (simp add: signalsFoundBy_def evs)
  with r evs show ?thesis by simp
qed

theorem isSignalledBy_pairs_every_awaited_event_with_its_raisers_witness:
  "\<not> list_ex (\<lambda>(n, f). bindings f = None) sampleFunctions
   \<and> distinct (map fst sampleFunctions)
   \<and> getEventNames sampleRegexes ''call:ActB;wait:Go;wait:No;'' = Some [''Go'', ''No'']
   \<and> signalledBy (mappedFunctions sampleEnv sampleRegexes sampleFunctions ''p'' ''p'') ''OrchA''
       = Some [(''Start'', ''Go''), (''Stop'', ''No'')]
   \<and> signalledBy (traversedFunctions sampleEnv sampleRegexes ''p'') ''OrchA''
       = Some [(''Start'', ''Go''), (''Stop'', ''No'')]"
proof -
  have w: "waitForExternalEventRegex sampleRegexes = sampleWait" by (simp add: sampleRegexes_def)
  have s0: "signalledBy sampleFunctions ''OrchA'' = Some []"
    by (simp add: signalledBy_def sampleFunctions_def seeded_def)
  have sg: "signalsOf sampleRegexes
      (otherFunctions sampleEnv sampleRegexes sampleFunctions ''p'' ''p'') [''Go'', ''No'']
      = [(''Start'', ''Go''), (''Stop'', ''No'')]"
    unfolding sample_otherFunctions by (simp add: signalsOf_def sampleRegexes_def)
  from isSignalledBy_pairs_every_awaited_event_with_its_raisers
    [OF sample_wellformed sample_all_advance sample_distinct sample_OrchA]
  obtain fs' where r: "mapOrchestratorsAndActivitiesAsync sampleEnv sampleRegexes sampleFunctions
      ''p'' ''p'' = Some (Inr fs')"
    and g: "getEventNames sampleRegexes ''call:ActB;wait:Go;wait:No;'' = Some [''Go'', ''No'']"
    and v: "signalledBy fs' ''OrchA'' = Some [(''Start'', ''Go''), (''Stop'', ''No'')]"
    using sample_matches by (auto simp: w s0 sg)
  from g v sample_wellformed sample_distinct show ?thesis
    by (simp add: mappedFunctions_eq [OF r] sample_traversedFunctions)
qed

section \<open>ProjectLocator\<close>

text \<open>
  C5: when no host.json is found under the resolved project folder (the folder given,
  or the checkout of the cloned repository), the traversal throws the host.json error;
  it returns no result, hence no functions map, proxies map or folder list.
\<close>

theorem missing_host_json_is_fatal:
  assumes "cloneIfGitRepo e pf0 = (Inr (temps, pf), lg)"
    and "findFileRecursivelyAsync e pf ''host.json'' False None = None"
  shows "collectFunctions e rx pf0 = Some (Inl HostJsonNotFound, lg)
       \<and> traverseFunctionProject e rx pf0 = Some (Inl HostJsonNotFound, lg)"
  using assms by (simp add: traverseFunctionProject_def collectFunctions_def)

theorem missing_host_json_is_fatal_witness:
  "cloneIfGitRepo sampleEnv ''q'' = (Inr ([], ''q''), [])
   \<and> findFileRecursivelyAsync sampleEnv ''q'' ''host.json'' False None = None
   \<and> traverseFunctionProject sampleEnv sampleRegexes ''q'' = Some (Inl HostJsonNotFound, [])"
proof -
  have c: "cloneIfGitRepo sampleEnv ''q'' = (Inr ([], ''q''), [])"
    by (simp add: cloneIfGitRepo_def startsWithHttp_def)
  have f: "findFileRecursivelyAsync sampleEnv ''q'' ''host.json'' False None = None"
    by (simp add: sampleEnv_def)
  from missing_host_json_is_fatal [OF c f, of sampleRegexes] c f show ?thesis by simp
qed

section \<open>ProxyReader\<close>

lemma readProxiesJson_malformed:
  assumes "existsSync e (pathJoin e pf ''proxies.json'')"
    and "readFile e (pathJoin e pf ''proxies.json'') = Some s"
    and "parseProxiesJson e s = ParseThrows"
  shows "readProxiesJson e pf = (Inr [], [FailedToParse (pathJoin e pf ''proxies.json'')])"
  using assms by (simp add: readProxiesJson_def Let_def)

text \<open>
  C6: when proxies.json exists and is read but \<open>JSON.parse\<close> throws on it,
  \<open>readProxiesJson\<close> logs the failure and returns the empty map, and a traversal whose
  earlier stages produced the functions map returns its result with that map, an empty
  proxies map and the failure as the last message logged.
\<close>

theorem malformed_proxies_json_is_not_fatal:
  assumes "collectFunctions e rx pf0 = Some (Inr (fs, temps, pf), lg)"
    and "existsSync e (pathJoin e pf ''proxies.json'')"
    and "readFile e (pathJoin e pf ''proxies.json'') = Some s"
    and "parseProxiesJson e s = ParseThrows"
  shows "readProxiesJson e pf = (Inr [], [FailedToParse (pathJoin e pf ''proxies.json'')])
       \<and> traverseFunctionProject e rx pf0 =
           Some (Inr \<lparr>functions' = fs, proxies = [], tempFolders = temps, projectFolder = pf\<rparr>,
                 lg @ [FailedToParse (pathJoin e pf ''proxies.json'')])"
  using assms(1) readProxiesJson_malformed [OF assms(2,3,4)]
  by (simp add: traverseFunctionProject_def)

theorem malformed_proxies_json_is_not_fatal_witness:
  "collectFunctions sampleEnv sampleRegexes ''m'' =
     Some (Inr ([], [], ''m''), [FoundHostJson ''m/host.json''])
   \<and> existsSync sampleEnv (pathJoin sampleEnv ''m'' ''proxies.json'')
   \<and> readFile sampleEnv (pathJoin sampleEnv ''m'' ''proxies.json'') = Some ''{''
   \<and> parseProxiesJson sampleEnv ''{'' = ParseThrows
   \<and> traverseFunctionProject sampleEnv sampleRegexes ''m'' =
       Some (Inr \<lparr>functions' = [], proxies = [], tempFolders = [], projectFolder = ''m''\<rparr>,
             [FoundHostJson ''m/host.json'', FailedToParse ''m/proxies.json''])"
proof -
  have x: "existsSync sampleEnv (pathJoin sampleEnv ''m'' ''proxies.json'')"
    by (simp add: sampleEnv_def)
  have r: "readFile sampleEnv (pathJoin sampleEnv ''m'' ''proxies.json'') = Some ''{''"
    by (simp add: sampleEnv_def)
  have t: "parseProxiesJson sampleEnv ''{'' = ParseThrows"
    by (simp add: sampleEnv_def sampleProxiesText_def)
  have j: "pathJoin sampleEnv ''m'' ''proxies.json'' = ''m/proxies.json''"
    by (simp add: sampleEnv_def)
  from malformed_proxies_json_is_not_fatal [OF sample_empty_project x r t]
  have "traverseFunctionProject sampleEnv sampleRegexes ''m'' =
       Some (Inr \<lparr>functions' = [], proxies = [], tempFolders = [], projectFolder = ''m''\<rparr>,
             [FoundHostJson ''m/host.json'', FailedToParse ''m/proxies.json''])"
    by (simp add: j)
  with sample_empty_project x r t show ?thesis by blast
qed

lemma addFilePathAndLineNr_entry:
  "addFilePathAndLineNr e path na s ps = Some out \<Longrightarrow> (n, p') \<in> set out \<Longrightarrow>
   \<exists>r p. (n, p) \<in> set ps \<and> newRegExp e (proxyNamePattern n) = Some r
     \<and> proxyFilePath p' = Some path
     \<and> (case r s of
          Some i \<Rightarrow> proxyPos p' = Some i \<and> proxyLineNr p' = Some (posToLineNr e s i)
        | None \<Rightarrow> proxyPos p' = proxyPos p \<and> proxyLineNr p' = proxyLineNr p)"
proof (induction ps arbitrary: out)
  case Nil
  then show ?case by simp
next
  case (Cons np ps)
  obtain m q where np: "np = (m, q)" by (cases np)
  from Cons.prems(1) np obtain r where r: "newRegExp e (proxyNamePattern m) = Some r"
    by (cases "newRegExp e (proxyNamePattern m)") (simp_all add: Let_def)
  from Cons.prems(1) np r obtain out' where
    rest: "addFilePathAndLineNr e path na s ps = Some out'"
    and out: "out = (m, (case r s of
          Some i \<Rightarrow> (if na then q\<lparr>proxyFilePath := Some path,
                                   warningNotAddedToCsProjFile := Some True\<rparr>
                      else q\<lparr>proxyFilePath := Some path\<rparr>)
                       \<lparr>proxyPos := Some i, proxyLineNr := Some (posToLineNr e s i)\<rparr>
        | None \<Rightarrow> (if na then q\<lparr>proxyFilePath := Some path,
                                   warningNotAddedToCsProjFile := Some True\<rparr>
                      else q\<lparr>proxyFilePath := Some path\<rparr>))) # out'"
    by (cases "addFilePathAndLineNr e path na s ps") (auto simp: Let_def)
  from Cons.prems(2) out consider (hd) "n = m" "p' = (case r s of
          Some i \<Rightarrow> (if na then q\<lparr>proxyFilePath := Some path,
                                   warningNotAddedToCsProjFile := Some True\<rparr>
                      else q\<lparr>proxyFilePath := Some path\<rparr>)
                       \<lparr>proxyPos := Some i, proxyLineNr := Some (posToLineNr e s i)\<rparr>
        | None \<Rightarrow> (if na then q\<lparr>proxyFilePath := Some path,
                                   warningNotAddedToCsProjFile := Some True\<rparr>
                      else q\<lparr>proxyFilePath := Some path\<rparr>))"
    | (tl) "(n, p') \<in> set out'" by auto
  then show ?case
  proof cases
    case hd
    have "(n, q) \<in> set (np # ps)" by (simp add: np hd(1))
    moreover have "newRegExp e (proxyNamePattern n) = Some r" by (simp add: hd(1) r)
    moreover have "proxyFilePath p' = Some path"
      by (simp add: hd(2) split: option.splits)
    moreover have "(case r s of
          Some i \<Rightarrow> proxyPos p' = Some i \<and> proxyLineNr p' = Some (posToLineNr e s i)
        | None \<Rightarrow> proxyPos p' = proxyPos q \<and> proxyLineNr p' = proxyLineNr q)"
      by (simp add: hd(2) split: option.splits)
    ultimately show ?thesis by blast
  next
    case tl
    from Cons.IH [OF rest tl] show ?thesis by auto
  qed
qed

lemma addFilePathAndLineNr_returns:
  "list_all (\<lambda>(n, p). newRegExp e (proxyNamePattern n) \<noteq> None) ps \<Longrightarrow>
   \<exists>out. addFilePathAndLineNr e path na s ps = Some out \<and> map fst out = map fst ps"
proof (induction ps)
  case Nil
  show ?case by simp
next
  case (Cons np ps)
  obtain m q where np: "np = (m, q)" by (cases np)
  from Cons.prems np obtain r where r: "newRegExp e (proxyNamePattern m) = Some r" by auto
  from Cons.prems have "list_all (\<lambda>(n, p). newRegExp e (proxyNamePattern n) \<noteq> None) ps" by simp
  from Cons.IH [OF this] obtain out where "addFilePathAndLineNr e path na s ps = Some out"
    and "map fst out = map fst ps" by blast
  with np r show ?case by (simp add: Let_def)
qed

lemma readProxiesJson_parsed:
  assumes "existsSync e (pathJoin e pf ''proxies.json'')"
    and "readFile e (pathJoin e pf ''proxies.json'') = Some s"
    and "parseProxiesJson e s = Proxies ps"
  shows "readProxiesJson e pf =
     (case notAddedToCsProjFile e pf of
        None \<Rightarrow> (Inr [], [FailedToParse (pathJoin e pf ''proxies.json'')])
      | Some na \<Rightarrow>
          (case addFilePathAndLineNr e (pathJoin e pf ''proxies.json'') na s ps of
             None \<Rightarrow> (Inr [], [FailedToParse (pathJoin e pf ''proxies.json'')])
           | Some out \<Rightarrow> (Inr out, [])))"
  using assms by (simp add: readProxiesJson_def Let_def)

text \<open>
  C10: let proxies.json be read and parsed. Every proxy returned has \<open>filePath\<close> set to
  the path of proxies.json; the pattern built from its quoted name, optional whitespace
  and a colon is run on the raw text; when it matches, \<open>pos\<close> is the index of the
  match and \<open>lineNr\<close> the line of that index; when it does not, \<open>pos\<close> and \<open>lineNr\<close>
  are what the descriptor held, that is, unset. And when every pattern can be built,
  every proxy of the descriptor is returned.
\<close>

theorem proxy_position_is_set_only_on_a_match:
  assumes "existsSync e (pathJoin e pf ''proxies.json'')"
    and "readFile e (pathJoin e pf ''proxies.json'') = Some s"
    and "parseProxiesJson e s = Proxies ps"
  shows "(\<forall>n p'. (n, p') \<in> set (returnedProxies e pf) \<longrightarrow>
           (\<exists>r p. (n, p) \<in> set ps \<and> newRegExp e (proxyNamePattern n) = Some r
              \<and> proxyFilePath p' = Some (pathJoin e pf ''proxies.json'')
              \<and> (case r s of
                   Some i \<Rightarrow> proxyPos p' = Some i \<and> proxyLineNr p' = Some (posToLineNr e s i)
                 | None \<Rightarrow> proxyPos p' = proxyPos p \<and> proxyLineNr p' = proxyLineNr p)))
       \<and> (notAddedToCsProjFile e pf \<noteq> None
            \<and> list_all (\<lambda>(n, p). newRegExp e (proxyNamePattern n) \<noteq> None) ps
          \<longrightarrow> map fst (returnedProxies e pf) = map fst ps)"
proof -
  note rp = readProxiesJson_parsed [OF assms]
  have a: "\<exists>r p. (n, p) \<in> set ps \<and> newRegExp e (proxyNamePattern n) = Some r
              \<and> proxyFilePath p' = Some (pathJoin e pf ''proxies.json'')
              \<and> (case r s of
                   Some i \<Rightarrow> proxyPos p' = Some i \<and> proxyLineNr p' = Some (posToLineNr e s i)
                 | None \<Rightarrow> proxyPos p' = proxyPos p \<and> proxyLineNr p' = proxyLineNr p)"
    if "(n, p') \<in> set (returnedProxies e pf)" for n p'
  proof (cases "notAddedToCsProjFile e pf")
    case None
    with that show ?thesis by (simp add: returnedProxies_def rp)
  next
    case (Some na)
    show ?thesis
    proof (cases "addFilePathAndLineNr e (pathJoin e pf ''proxies.json'') na s ps")
      case None
      with Some that show ?thesis by (simp add: returnedProxies_def rp)
    next
      case (Some out)
      with \<open>notAddedToCsProjFile e pf = Some na\<close> that have "(n, p') \<in> set out"
        by (simp add: returnedProxies_def rp)
      with Some show ?thesis by (rule addFilePathAndLineNr_entry)
    qed
  qed
  have b: "map fst (returnedProxies e pf) = map fst ps"
    if "notAddedToCsProjFile e pf \<noteq> None"
      and "list_all (\<lambda>(n, p). newRegExp e (proxyNamePattern n) \<noteq> None) ps"
  proof -
    from that(1) obtain na where na: "notAddedToCsProjFile e pf = Some na" by auto
    from addFilePathAndLineNr_returns [OF that(2)] obtain out where
      "addFilePathAndLineNr e (pathJoin e pf ''proxies.json'') na s ps = Some out"
      and "map fst out = map fst ps" by blast
    with na show ?thesis by (simp add: returnedProxies_def rp)
  qed
  from a b show ?thesis by blast
qed

theorem proxy_position_is_set_only_on_a_match_witness:
  "existsSync sampleEnv (pathJoin sampleEnv ''p'' ''proxies.json'')
   \<and> readFile sampleEnv (pathJoin sampleEnv ''p'' ''proxies.json'') = Some sampleProxiesText
   \<and> parseProxiesJson sampleEnv sampleProxiesText = Proxies sampleProxies
   \<and> map fst (returnedProxies sampleEnv ''p'') = [''foo'', ''a/b'']
   \<and> map (proxyFilePath \<circ> snd) (returnedProxies sampleEnv ''p'')
       = [Some ''p/proxies.json'', Some ''p/proxies.json'']
   \<and> map (proxyPos \<circ> snd) (returnedProxies sampleEnv ''p'') = [Some 1, None]
   \<and> map (proxyLineNr \<circ> snd) (returnedProxies sampleEnv ''p'') = [Some 1, None]"
proof -
  have x: "existsSync sampleEnv (pathJoin sampleEnv ''p'' ''proxies.json'')"
    by (simp add: sampleEnv_def)
  have r: "readFile sampleEnv (pathJoin sampleEnv ''p'' ''proxies.json'') = Some sampleProxiesText"
    by (simp add: sampleEnv_def)
  have t: "parseProxiesJson sampleEnv sampleProxiesText = Proxies sampleProxies"
    by (simp add: sampleEnv_def)
  have n: "notAddedToCsProjFile sampleEnv ''p'' \<noteq> None"
    by (simp add: notAddedToCsProjFile_def sampleEnv_def)
  have c: "list_all (\<lambda>(n, p). newRegExp sampleEnv (proxyNamePattern n) \<noteq> None) sampleProxies"
    by (simp add: sampleEnv_def sampleProxies_def)
  from proxy_position_is_set_only_on_a_match [OF x r t] n c
  have k: "map fst (returnedProxies sampleEnv ''p'') = map fst sampleProxies" by blast
  have v: "returnedProxies sampleEnv ''p'' =
      [(''foo'', \<lparr>proxyFields = [], proxyFilePath = Some ''p/proxies.json'',
                     warningNotAddedToCsProjFile = None, proxyPos = Some 1,
                     proxyLineNr = Some 1\<rparr>),
           (''a/b'', \<lparr>proxyFields = [], proxyFilePath = Some ''p/proxies.json'',
                     warningNotAddedToCsProjFile = None, proxyPos = None,
                     proxyLineNr = None\<rparr>)]"
    by (simp add: returnedProxies_def sample_readProxiesJson)
  from k x r t show ?thesis by (simp add: v)
qed

end
